theory Spec2Isabelle
  imports Main "HOL-Library.Multiset" "HOL-Library.While_Combinator"
begin

section \<open>Common conventions\<close>

text \<open>
  Keys are C \<^verbatim>\<open>int\<close>s. The code only compares and copies keys, so they are modelled
  by \<^typ>\<open>int\<close>. Indices and sizes are \<^verbatim>\<open>size_t\<close>; they are bounded by the
  size of an allocated buffer, so the index arithmetic \<^verbatim>\<open>2*i+1\<close> does not wrap
  and they are modelled by \<^typ>\<open>nat\<close>.

  A failed \<^verbatim>\<open>assert\<close> aborts the process: it is the value \<open>Inl AssertionFailed\<close>.
  Reading a field through a \<^verbatim>\<open>NULL\<close> pointer is undefined behaviour in C; the model
  makes it the separate value \<open>Inl NullDereference\<close>. Passing \<^verbatim>\<open>heap_merge\<close> a
  pointer at which no heap object lives is \<open>Inl InvalidPointer\<close>.
\<close>

datatype fault = AssertionFailed | NullDereference | InvalidPointer

section \<open>binary\_heap.c: the array heap\<close>

text \<open>
  \<^verbatim>\<open>struct BinaryHeap { int *data; size_t size; size_t capacity; bool is_min; }\<close>.
  The buffer \<open>data\<close> is owned by the heap; it is the list of its \<open>capacity\<close> cells.
  Cells that \<^verbatim>\<open>malloc\<close>/\<^verbatim>\<open>realloc\<close> leave uninitialised hold \<open>0\<close> in the model;
  the code never reads a cell at an index \<open>\<ge> size\<close>. The field \<^verbatim>\<open>size\<close> is named
  \<open>size_h\<close>.
\<close>

record BinaryHeap =
  data :: "int list"
  size_h :: nat
  capacity :: nat
  is_min :: bool

definition PARENT :: "nat \<Rightarrow> nat" where
  "PARENT i = (i - 1) div 2"

definition LEFT :: "nat \<Rightarrow> nat" where
  "LEFT i = i * 2 + 1"

definition RIGHT :: "nat \<Rightarrow> nat" where
  "RIGHT i = i * 2 + 2"

definition heap_prefers :: "BinaryHeap \<Rightarrow> int \<Rightarrow> int \<Rightarrow> bool" where
  "heap_prefers h a b = (if is_min h then a < b else a > b)"

definition heap_swap :: "int list \<Rightarrow> nat \<Rightarrow> nat \<Rightarrow> int list" where
  "heap_swap xs i j = xs[i := xs ! j, j := xs ! i]"

definition heap_create :: "nat \<Rightarrow> bool \<Rightarrow> BinaryHeap" where
  "heap_create cap m =
     (let c = (if cap = 0 then 4 else cap)
      in \<lparr>data = replicate c 0, size_h = 0, capacity = c, is_min = m\<rparr>)"

definition heap_resize :: "BinaryHeap \<Rightarrow> nat \<Rightarrow> BinaryHeap" where
  "heap_resize h min_capacity =
     (let new_cap0 = (if capacity h \<noteq> 0 then capacity h * 2 else 4);
          new_cap = (if new_cap0 < min_capacity then min_capacity else new_cap0)
      in h\<lparr>data := take new_cap (data h) @ replicate (new_cap - length (data h)) 0,
            capacity := new_cap\<rparr>)"

text \<open>The index \<open>best\<close> that one round of the loop of \<^verbatim>\<open>heap_sift_down\<close> computes.\<close>

definition sift_best :: "BinaryHeap \<Rightarrow> nat \<Rightarrow> nat" where
  "sift_best h idx =
     (let n = size_h h; l = LEFT idx; r = RIGHT idx;
          best = idx;
          best = (if l < n \<and> heap_prefers h (data h ! l) (data h ! best) then l else best);
          best = (if r < n \<and> heap_prefers h (data h ! r) (data h ! best) then r else best)
      in best)"

function heap_sift_down :: "BinaryHeap \<Rightarrow> nat \<Rightarrow> BinaryHeap" where
  "heap_sift_down h idx =
     (let best = sift_best h idx
      in if best \<noteq> idx
         then heap_sift_down (h\<lparr>data := heap_swap (data h) idx best\<rparr>) best
         else h)"
  by pat_completeness auto
termination
  by (relation "measure (\<lambda>(h, idx). size_h h - idx)")
     (auto simp: sift_best_def LEFT_def RIGHT_def Let_def split: if_splits)

declare heap_sift_down.simps [simp del]

function heap_sift_up :: "BinaryHeap \<Rightarrow> nat \<Rightarrow> BinaryHeap" where
  "heap_sift_up h idx =
     (if idx > 0
      then (let p = PARENT idx
            in if heap_prefers h (data h ! idx) (data h ! p)
               then heap_sift_up (h\<lparr>data := heap_swap (data h) idx p\<rparr>) p
               else h)
      else h)"
  by pat_completeness auto
termination
  by (relation "measure (\<lambda>(h, idx). idx)") (auto simp: PARENT_def)

declare heap_sift_up.simps [simp del]

definition heap_push :: "BinaryHeap \<Rightarrow> int \<Rightarrow> BinaryHeap" where
  "heap_push h v =
     (let h1 = (if size_h h + 1 > capacity h then heap_resize h (size_h h + 1) else h);
          h2 = h1\<lparr>data := (data h1)[size_h h1 := v], size_h := size_h h1 + 1\<rparr>
      in heap_sift_up h2 (size_h h2 - 1))"

definition heap_peek :: "BinaryHeap \<Rightarrow> fault + int" where
  "heap_peek h = (if size_h h > 0 then Inr (data h ! 0) else Inl AssertionFailed)"

definition heap_pop :: "BinaryHeap \<Rightarrow> fault + (int \<times> BinaryHeap)" where
  "heap_pop h =
     (if size_h h > 0
      then (let root = data h ! 0;
                h1 = h\<lparr>size_h := size_h h - 1\<rparr>
            in if size_h h1 > 0
               then Inr (root, heap_sift_down (h1\<lparr>data := (data h1)[0 := data h1 ! size_h h1]\<rparr>) 0)
               else Inr (root, h1))
      else Inl AssertionFailed)"

text \<open>
  The loop \<^verbatim>\<open>for (i = PARENT(n - 1); i >= 0; --i) heap_sift_down(h, i)\<close> of
  \<^verbatim>\<open>heap_build_from_array\<close>: \<open>build_loop h k\<close> runs it for \<open>i = k - 1, \<dots>, 0\<close>.
\<close>

fun build_loop :: "BinaryHeap \<Rightarrow> nat \<Rightarrow> BinaryHeap" where
  "build_loop h 0 = h"
| "build_loop h (Suc i) = build_loop (heap_sift_down h i) i"

definition heap_build_from_array :: "int list \<Rightarrow> nat \<Rightarrow> bool \<Rightarrow> BinaryHeap" where
  "heap_build_from_array arr n m =
     (let cap = (if n \<noteq> 0 then n else 1);
          h = \<lparr>data = take n arr @ replicate (cap - n) 0, size_h = n, capacity = cap, is_min = m\<rparr>
      in if n > 1 then build_loop h (Suc (PARENT (n - 1))) else h)"

text \<open>
  \<^verbatim>\<open>heap_merge\<close> takes two pointers, each possibly \<^verbatim>\<open>NULL\<close> (\<open>None\<close>), and returns
  a pointer to a new heap, or \<^verbatim>\<open>NULL\<close>. Heaps live in a store of heap objects; the
  new heap is allocated at the first free address.
\<close>

type_synonym addr = nat

record heap_store =
  heaps :: "addr \<rightharpoonup> BinaryHeap"
  next_heap :: addr

definition heap_alloc :: "heap_store \<Rightarrow> BinaryHeap \<Rightarrow> heap_store \<times> addr" where
  "heap_alloc s h = (s\<lparr>heaps := (heaps s)(next_heap s \<mapsto> h), next_heap := Suc (next_heap s)\<rparr>, next_heap s)"

definition heap_destroy :: "heap_store \<Rightarrow> addr option \<Rightarrow> heap_store" where
  "heap_destroy s p = (case p of None \<Rightarrow> s | Some a \<Rightarrow> s\<lparr>heaps := (heaps s)(a := None)\<rparr>)"

definition merged_buffer :: "BinaryHeap \<Rightarrow> BinaryHeap \<Rightarrow> int list" where
  "merged_buffer a b = take (size_h a) (data a) @ take (size_h b) (data b)"

definition heap_merge ::
  "heap_store \<Rightarrow> addr option \<Rightarrow> addr option \<Rightarrow> fault + (heap_store \<times> addr option)" where
  "heap_merge s pa pb =
     (case (pa, pb) of
        (None, None) \<Rightarrow> Inr (s, None)
      | (None, Some q) \<Rightarrow>
          (case heaps s q of None \<Rightarrow> Inl InvalidPointer
           | Some b \<Rightarrow> (let (s', r) = heap_alloc s (heap_build_from_array (data b) (size_h b) (is_min b))
                       in Inr (s', Some r)))
      | (Some p, None) \<Rightarrow>
          (case heaps s p of None \<Rightarrow> Inl InvalidPointer
           | Some a \<Rightarrow> (let (s', r) = heap_alloc s (heap_build_from_array (data a) (size_h a) (is_min a))
                       in Inr (s', Some r)))
      | (Some p, Some q) \<Rightarrow>
          (case (heaps s p, heaps s q) of
             (Some a, Some b) \<Rightarrow>
               if is_min a = is_min b
               then (let total = size_h a + size_h b;
                         buf = merged_buffer a b;
                         (s', r) = heap_alloc s (heap_build_from_array buf total (is_min a))
                     in Inr (s', Some r))
               else Inl AssertionFailed
           | _ \<Rightarrow> Inl InvalidPointer))"

definition heap_merge_destroy ::
  "heap_store \<Rightarrow> addr option \<Rightarrow> addr option \<Rightarrow> fault + (heap_store \<times> addr option)" where
  "heap_merge_destroy s pa pb =
     (case (pa, pb) of
        (None, None) \<Rightarrow> Inr (s, None)
      | (None, Some q) \<Rightarrow>
          (case heaps s q of None \<Rightarrow> Inl InvalidPointer
           | Some b \<Rightarrow> (let (s', r) = heap_alloc s (heap_build_from_array (data b) (size_h b) (is_min b))
                       in Inr (heap_destroy s' (Some q), Some r)))
      | (Some p, None) \<Rightarrow>
          (case heaps s p of None \<Rightarrow> Inl InvalidPointer
           | Some a \<Rightarrow> (let (s', r) = heap_alloc s (heap_build_from_array (data a) (size_h a) (is_min a))
                       in Inr (heap_destroy s' (Some p), Some r)))
      | (Some p, Some q) \<Rightarrow>
          (case (heaps s p, heaps s q) of
             (Some a, Some b) \<Rightarrow>
               if is_min a = is_min b
               then (let total = size_h a + size_h b;
                         buf = merged_buffer a b;
                         (s', r) = heap_alloc s (heap_build_from_array buf total (is_min a))
                     in Inr (heap_destroy (heap_destroy s' (Some p)) (Some q), Some r))
               else Inl AssertionFailed
           | _ \<Rightarrow> Inl InvalidPointer))"

section \<open>binary\_tree.c: the unbalanced binary search tree\<close>

text \<open>
  \<^verbatim>\<open>struct Node { int key; struct Node *left; struct Node *right; }\<close>. A parent owns
  its children, so a tree is a value of a datatype; \<open>NIL\<close> is the \<^verbatim>\<open>NULL\<close> pointer.
  A function that returns a pointer to a node of the tree returns the subtree rooted there.
\<close>

datatype Node = NIL | Node int Node Node

definition bst_create_node :: "int \<Rightarrow> Node" where
  "bst_create_node k = Node k NIL NIL"

fun bst_insert :: "Node \<Rightarrow> int \<Rightarrow> Node" where
  "bst_insert NIL k = bst_create_node k"
| "bst_insert (Node rk l r) k =
     (if k < rk then Node rk (bst_insert l k) r
      else if k > rk then Node rk l (bst_insert r k)
      else Node rk l r)"

fun bst_search_recursive :: "Node \<Rightarrow> int \<Rightarrow> Node" where
  "bst_search_recursive NIL k = NIL"
| "bst_search_recursive (Node rk l r) k =
     (if rk = k then Node rk l r
      else if k < rk then bst_search_recursive l k
      else bst_search_recursive r k)"

text \<open>
  \<^verbatim>\<open>bst_search_iterative\<close> is a \<^verbatim>\<open>while\<close> loop on the variable \<^verbatim>\<open>cur\<close>. The loop
  goes on while \<^verbatim>\<open>cur\<close> is not \<^verbatim>\<open>NULL\<close> and does not hold the key; it is left
  either by \<^verbatim>\<open>return cur\<close> (the key is found) or with \<^verbatim>\<open>cur == NULL\<close>, and then
  \<^verbatim>\<open>NULL\<close> is returned: in both cases the value of \<^verbatim>\<open>cur\<close>. \<open>None\<close> stands
  for a loop that does not end.
\<close>

definition search_continues :: "int \<Rightarrow> Node \<Rightarrow> bool" where
  "search_continues k cur = (case cur of NIL \<Rightarrow> False | Node ck l r \<Rightarrow> ck \<noteq> k)"

definition search_step :: "int \<Rightarrow> Node \<Rightarrow> Node" where
  "search_step k cur = (case cur of NIL \<Rightarrow> NIL | Node ck l r \<Rightarrow> if k < ck then l else r)"

definition bst_search_iterative :: "Node \<Rightarrow> int \<Rightarrow> Node option" where
  "bst_search_iterative root k = while_option (search_continues k) (search_step k) root"

text \<open>\<^verbatim>\<open>bst_min\<close>: the assertion, then the loop \<^verbatim>\<open>while (cur->left) cur = cur->left\<close>.\<close>

fun bst_min_loop :: "int \<Rightarrow> Node \<Rightarrow> Node \<Rightarrow> Node" where
  "bst_min_loop k NIL r = Node k NIL r"
| "bst_min_loop k (Node lk ll lr) r = bst_min_loop lk ll lr"

definition bst_min :: "Node \<Rightarrow> fault + Node" where
  "bst_min root = (case root of NIL \<Rightarrow> Inl AssertionFailed | Node k l r \<Rightarrow> Inr (bst_min_loop k l r))"

fun bst_delete :: "Node \<Rightarrow> int \<Rightarrow> fault + Node" where
  "bst_delete NIL k = Inr NIL"
| "bst_delete (Node rk l r) k =
     (if k < rk then
        (case bst_delete l k of Inl e \<Rightarrow> Inl e | Inr l' \<Rightarrow> Inr (Node rk l' r))
      else if k > rk then
        (case bst_delete r k of Inl e \<Rightarrow> Inl e | Inr r' \<Rightarrow> Inr (Node rk l r'))
      else if l = NIL \<and> r = NIL then Inr NIL
      else if l = NIL then Inr r
      else if r = NIL then Inr l
      else (case bst_min r of
              Inl e \<Rightarrow> Inl e
            | Inr NIL \<Rightarrow> Inl NullDereference
            | Inr (Node sk sl sr) \<Rightarrow>
                (case bst_delete r sk of Inl e \<Rightarrow> Inl e | Inr r' \<Rightarrow> Inr (Node sk l r'))))"

text \<open>The traversals call \<^verbatim>\<open>visit\<close> on each key; the model returns the keys in the order of the calls.\<close>

fun bst_preorder :: "Node \<Rightarrow> int list" where
  "bst_preorder NIL = []"
| "bst_preorder (Node k l r) = k # bst_preorder l @ bst_preorder r"

fun bst_inorder :: "Node \<Rightarrow> int list" where
  "bst_inorder NIL = []"
| "bst_inorder (Node k l r) = bst_inorder l @ k # bst_inorder r"

fun bst_postorder :: "Node \<Rightarrow> int list" where
  "bst_postorder NIL = []"
| "bst_postorder (Node k l r) = bst_postorder l @ bst_postorder r @ [k]"

text \<open>A sequence of calls of \<^verbatim>\<open>bst_insert\<close> and \<^verbatim>\<open>bst_delete\<close> on the variable \<^verbatim>\<open>root\<close>.\<close>

datatype bst_op = BstInsert int | BstDelete int

fun bst_run :: "Node \<Rightarrow> bst_op list \<Rightarrow> fault + Node" where
  "bst_run t [] = Inr t"
| "bst_run t (BstInsert k # ops) = bst_run (bst_insert t k) ops"
| "bst_run t (BstDelete k # ops) =
     (case bst_delete t k of Inl e \<Rightarrow> Inl e | Inr t' \<Rightarrow> bst_run t' ops)"

section \<open>treap.c: the treap\<close>

text \<open>
  \<^verbatim>\<open>struct TreapNode { int key; int priority; struct TreapNode *left, *right; }\<close>.
  \<^verbatim>\<open>treap_new_node\<close> draws the priority from \<^verbatim>\<open>rand()\<close>; in the model the drawn
  value is an argument.
\<close>

datatype TreapNode = TNIL | TreapNode int int TreapNode TreapNode

definition treap_new_node :: "int \<Rightarrow> int \<Rightarrow> TreapNode" where
  "treap_new_node k prio = TreapNode k prio TNIL TNIL"

text \<open>\<^verbatim>\<open>treap_split(t, key, &l, &r)\<close> returns the pair \<open>(l, r)\<close> of its two out-parameters.\<close>

fun treap_split :: "TreapNode \<Rightarrow> int \<Rightarrow> TreapNode \<times> TreapNode" where
  "treap_split TNIL k = (TNIL, TNIL)"
| "treap_split (TreapNode tk tp tleft tright) k =
     (if k \<le> tk
      then (let (l, tleft') = treap_split tleft k in (l, TreapNode tk tp tleft' tright))
      else (let (tright', r) = treap_split tright k in (TreapNode tk tp tleft tright', r)))"

function treap_merge :: "TreapNode \<Rightarrow> TreapNode \<Rightarrow> TreapNode" where
  "treap_merge TNIL r = r"
| "treap_merge (TreapNode lk lp ll lr) TNIL = TreapNode lk lp ll lr"
| "treap_merge (TreapNode lk lp ll lr) (TreapNode rk rp rl rr) =
     (if lp > rp
      then TreapNode lk lp ll (treap_merge lr (TreapNode rk rp rl rr))
      else TreapNode rk rp (treap_merge (TreapNode lk lp ll lr) rl) rr)"
  by pat_completeness auto
termination
  by (relation "measure (\<lambda>(l, r). size l + size r)") auto

definition treap_insert :: "TreapNode \<Rightarrow> int \<Rightarrow> int \<Rightarrow> TreapNode" where
  "treap_insert root k prio =
     (let (l, r) = treap_split root k;
          n = treap_new_node k prio
      in treap_merge (treap_merge l n) r)"

fun treap_remove :: "TreapNode \<Rightarrow> int \<Rightarrow> TreapNode" where
  "treap_remove TNIL k = TNIL"
| "treap_remove (TreapNode rk rp l r) k =
     (if rk = k then treap_merge l r
      else if k < rk then TreapNode rk rp (treap_remove l k) r
      else TreapNode rk rp l (treap_remove r k))"

fun treap_search :: "TreapNode \<Rightarrow> int \<Rightarrow> bool" where
  "treap_search TNIL k = False"
| "treap_search (TreapNode rk rp l r) k =
     (if k = rk then True else treap_search (if k < rk then l else r) k)"

fun treap_inorder :: "TreapNode \<Rightarrow> int list" where
  "treap_inorder TNIL = []"
| "treap_inorder (TreapNode k p l r) = treap_inorder l @ k # treap_inorder r"

text \<open>The priorities along an in-order walk, and the max-heap order on priorities.\<close>

fun treap_priorities :: "TreapNode \<Rightarrow> int list" where
  "treap_priorities TNIL = []"
| "treap_priorities (TreapNode k p l r) = treap_priorities l @ p # treap_priorities r"

fun treap_heap_ordered :: "TreapNode \<Rightarrow> bool" where
  "treap_heap_ordered TNIL = True"
| "treap_heap_ordered (TreapNode k p l r) =
     (list_all (\<lambda>q. q \<le> p) (treap_priorities l) \<and> list_all (\<lambda>q. q \<le> p) (treap_priorities r)
      \<and> treap_heap_ordered l \<and> treap_heap_ordered r)"

definition treap_valid :: "TreapNode \<Rightarrow> bool" where
  "treap_valid t = (sorted_wrt (<) (treap_inorder t) \<and> treap_heap_ordered t)"

text \<open>
  A sequence of calls of \<^verbatim>\<open>treap_insert\<close> (with the priority drawn for the new node)
  and \<^verbatim>\<open>treap_remove\<close> on the variable \<^verbatim>\<open>root\<close>.
\<close>

datatype treap_op = TreapInsert int int | TreapRemove int

fun treap_run :: "TreapNode \<Rightarrow> treap_op list \<Rightarrow> TreapNode" where
  "treap_run t [] = t"
| "treap_run t (TreapInsert k prio # ops) = treap_run (treap_insert t k prio) ops"
| "treap_run t (TreapRemove k # ops) = treap_run (treap_remove t k) ops"

text \<open>No call of \<^verbatim>\<open>treap_insert\<close> in the sequence inserts a key that the tree holds at that moment.\<close>

fun inserts_absent_keys :: "TreapNode \<Rightarrow> treap_op list \<Rightarrow> bool" where
  "inserts_absent_keys t [] = True"
| "inserts_absent_keys t (TreapInsert k prio # ops) =
     (k \<notin> set (treap_inorder t) \<and> inserts_absent_keys (treap_insert t k prio) ops)"
| "inserts_absent_keys t (TreapRemove k # ops) = inserts_absent_keys (treap_remove t k) ops"

section \<open>Pointer structures: the memory\<close>

text \<open>
  The leftist, skew and binomial heaps are built from nodes that point to each other, and
  their operations rewire the nodes in place. A memory holds a node at every address;
  \<open>brk\<close> is the first address that \<^verbatim>\<open>malloc\<close> has not handed out yet, so the allocated
  nodes are the ones below \<open>brk\<close>. \<^verbatim>\<open>free\<close> records the address in \<open>freed\<close> and leaves
  the cell as it is. A pointer is \<open>None\<close> (\<^verbatim>\<open>NULL\<close>) or \<open>Some\<close> address.

  Recursion and loops over pointers need not end (the nodes may form a cycle), so these
  functions take a bound \<open>fuel\<close> on the depth of the recursion or on the number of rounds
  of a loop; \<open>None\<close> says that the bound was reached before the function returned.
\<close>

record 'n memory =
  cells :: "addr \<Rightarrow> 'n"
  brk :: addr
  freed :: "addr set"

definition malloc :: "'n memory \<Rightarrow> 'n \<Rightarrow> 'n memory \<times> addr" where
  "malloc m n = (m\<lparr>cells := (cells m)(brk m := n), brk := Suc (brk m)\<rparr>, brk m)"

definition free :: "'n memory \<Rightarrow> addr \<Rightarrow> 'n memory" where
  "free m p = m\<lparr>freed := insert p (freed m)\<rparr>"

definition update_cell :: "'n memory \<Rightarrow> addr \<Rightarrow> ('n \<Rightarrow> 'n) \<Rightarrow> 'n memory" where
  "update_cell m p f = m\<lparr>cells := (cells m)(p := f (cells m p))\<rparr>"

section \<open>leftist\_heap.c: the leftist heap\<close>

text \<open>
  \<^verbatim>\<open>struct LeftistNode { int key; int npl; struct LeftistNode *left, *right; }\<close>; the
  fields are named \<open>ln_key\<close>, \<open>ln_npl\<close>, \<open>ln_left\<close>, \<open>ln_right\<close>.
\<close>

record LeftistNode =
  ln_key :: int
  ln_npl :: int
  ln_left :: "addr option"
  ln_right :: "addr option"

definition leftist_new_node :: "LeftistNode memory \<Rightarrow> int \<Rightarrow> LeftistNode memory \<times> addr" where
  "leftist_new_node m k = malloc m \<lparr>ln_key = k, ln_npl = 0, ln_left = None, ln_right = None\<rparr>"

definition npl :: "LeftistNode memory \<Rightarrow> addr option \<Rightarrow> int" where
  "npl m n = (case n of None \<Rightarrow> - 1 | Some p \<Rightarrow> ln_npl (cells m p))"

text \<open>The part of \<^verbatim>\<open>leftist_merge\<close> after the recursive call: restore the leftist property at \<open>a\<close>.\<close>

definition leftist_fix :: "LeftistNode memory \<Rightarrow> addr \<Rightarrow> LeftistNode memory" where
  "leftist_fix m a =
     (let m1 = (if npl m (ln_left (cells m a)) < npl m (ln_right (cells m a))
                then (let tmp = ln_left (cells m a);
                          m' = update_cell m a (\<lambda>n. n\<lparr>ln_left := ln_right (cells m a)\<rparr>)
                      in update_cell m' a (\<lambda>n. n\<lparr>ln_right := tmp\<rparr>))
                else m)
      in update_cell m1 a (\<lambda>n. n\<lparr>ln_npl := 1 + npl m1 (ln_right (cells m1 a))\<rparr>))"

fun leftist_merge ::
  "nat \<Rightarrow> LeftistNode memory \<Rightarrow> addr option \<Rightarrow> addr option \<Rightarrow> (LeftistNode memory \<times> addr option) option" where
  "leftist_merge 0 m a b = None"
| "leftist_merge (Suc fuel) m None b = Some (m, b)"
| "leftist_merge (Suc fuel) m (Some a) None = Some (m, Some a)"
| "leftist_merge (Suc fuel) m (Some a0) (Some b0) =
     (let (a, b) = (if ln_key (cells m b0) < ln_key (cells m a0) then (b0, a0) else (a0, b0))
      in case leftist_merge fuel m (ln_right (cells m a)) (Some b) of
           None \<Rightarrow> None
         | Some (m1, r) \<Rightarrow>
             Some (leftist_fix (update_cell m1 a (\<lambda>n. n\<lparr>ln_right := r\<rparr>)) a, Some a))"

definition leftist_insert ::
  "nat \<Rightarrow> LeftistNode memory \<Rightarrow> addr option \<Rightarrow> int \<Rightarrow> (LeftistNode memory \<times> addr option) option" where
  "leftist_insert fuel m heap k =
     (let (m1, n) = leftist_new_node m k in leftist_merge fuel m1 heap (Some n))"

definition leftist_find_min :: "LeftistNode memory \<Rightarrow> addr option \<Rightarrow> fault + int" where
  "leftist_find_min m heap =
     (case heap of None \<Rightarrow> Inl AssertionFailed | Some p \<Rightarrow> Inr (ln_key (cells m p)))"

definition leftist_delete_min ::
  "nat \<Rightarrow> LeftistNode memory \<Rightarrow> addr option \<Rightarrow> (fault + LeftistNode memory \<times> addr option) option" where
  "leftist_delete_min fuel m heap =
     (case heap of
        None \<Rightarrow> Some (Inl AssertionFailed)
      | Some p \<Rightarrow>
          (case leftist_merge fuel m (ln_left (cells m p)) (ln_right (cells m p)) of
             None \<Rightarrow> None
           | Some (m1, res) \<Rightarrow> Some (Inr (free m1 p, res))))"

fun leftist_clone ::
  "nat \<Rightarrow> LeftistNode memory \<Rightarrow> addr option \<Rightarrow> (LeftistNode memory \<times> addr option) option" where
  "leftist_clone 0 m h = None"
| "leftist_clone (Suc fuel) m None = Some (m, None)"
| "leftist_clone (Suc fuel) m (Some h) =
     (let (m1, n) = leftist_new_node m (ln_key (cells m h));
          m2 = update_cell m1 n (\<lambda>c. c\<lparr>ln_npl := ln_npl (cells m1 h)\<rparr>)
      in case leftist_clone fuel m2 (ln_left (cells m2 h)) of
           None \<Rightarrow> None
         | Some (m3, cl) \<Rightarrow>
             (let m4 = update_cell m3 n (\<lambda>c. c\<lparr>ln_left := cl\<rparr>)
              in case leftist_clone fuel m4 (ln_right (cells m4 h)) of
                   None \<Rightarrow> None
                 | Some (m5, cr) \<Rightarrow> Some (update_cell m5 n (\<lambda>c. c\<lparr>ln_right := cr\<rparr>), Some n)))"

definition leftist_merge_persistent ::
  "nat \<Rightarrow> LeftistNode memory \<Rightarrow> addr option \<Rightarrow> addr option \<Rightarrow> (LeftistNode memory \<times> addr option) option" where
  "leftist_merge_persistent fuel m a b =
     (case leftist_clone fuel m a of
        None \<Rightarrow> None
      | Some (m1, ca) \<Rightarrow>
          (case leftist_clone fuel m1 b of
             None \<Rightarrow> None
           | Some (m2, cb) \<Rightarrow> leftist_merge fuel m2 ca cb))"

text \<open>
  The shape of the nodes reachable from a pointer: \<open>LNode p k n l r\<close> is the node at
  address \<open>p\<close> with key \<open>k\<close>, stored npl field \<open>n\<close> and the subtrees \<open>l\<close> and \<open>r\<close>.
  \<open>ltree_at c p t\<close> says that the cells \<open>c\<close> hold the tree \<open>t\<close> at pointer \<open>p\<close>.
\<close>

datatype ltree = LLeaf | LNode addr int int ltree ltree

fun ltree_at :: "(addr \<Rightarrow> LeftistNode) \<Rightarrow> addr option \<Rightarrow> ltree \<Rightarrow> bool" where
  "ltree_at c None LLeaf = True"
| "ltree_at c (Some p) (LNode q k n l r) =
     (p = q \<and> ln_key (c p) = k \<and> ln_npl (c p) = n
      \<and> ltree_at c (ln_left (c p)) l \<and> ltree_at c (ln_right (c p)) r)"
| "ltree_at c None (LNode q k n l r) = False"
| "ltree_at c (Some p) LLeaf = False"

fun ltree_addrs :: "ltree \<Rightarrow> addr list" where
  "ltree_addrs LLeaf = []"
| "ltree_addrs (LNode p k n l r) = p # ltree_addrs l @ ltree_addrs r"

fun ltree_keys :: "ltree \<Rightarrow> int list" where
  "ltree_keys LLeaf = []"
| "ltree_keys (LNode p k n l r) = k # ltree_keys l @ ltree_keys r"

text \<open>Two trees with the same shape, keys and npl fields (at any addresses).\<close>

fun ltree_same :: "ltree \<Rightarrow> ltree \<Rightarrow> bool" where
  "ltree_same LLeaf LLeaf = True"
| "ltree_same (LNode p k n l r) (LNode p' k' n' l' r') =
     (k = k' \<and> n = n' \<and> ltree_same l l' \<and> ltree_same r r')"
| "ltree_same LLeaf (LNode p' k' n' l' r') = False"
| "ltree_same (LNode p k n l r) LLeaf = False"

text \<open>The npl field that the root of a tree stores; \<open>-1\<close> for the empty tree.\<close>

fun ltree_npl :: "ltree \<Rightarrow> int" where
  "ltree_npl LLeaf = - 1"
| "ltree_npl (LNode p k n l r) = n"

text \<open>
  The leftist invariant of the spec: at every node \<open>npl(left) \<ge> npl(right)\<close>, and the
  stored npl field is \<open>1 + min(npl(left), npl(right))\<close>.
\<close>

fun leftist_property :: "ltree \<Rightarrow> bool" where
  "leftist_property LLeaf = True"
| "leftist_property (LNode p k n l r) =
     (ltree_npl l \<ge> ltree_npl r \<and> n = 1 + min (ltree_npl l) (ltree_npl r)
      \<and> leftist_property l \<and> leftist_property r)"

text \<open>What \<^verbatim>\<open>leftist_merge\<close> does to the shapes of two trees that share no node.\<close>

function ltree_merge :: "ltree \<Rightarrow> ltree \<Rightarrow> ltree" where
  "ltree_merge LLeaf b = b"
| "ltree_merge (LNode p k n l r) LLeaf = LNode p k n l r"
| "ltree_merge (LNode pa ka na la ra) (LNode pb kb nb lb rb) =
     (if kb < ka
      then (let r' = ltree_merge rb (LNode pa ka na la ra)
            in if ltree_npl lb < ltree_npl r'
               then LNode pb kb (1 + ltree_npl lb) r' lb
               else LNode pb kb (1 + ltree_npl r') lb r')
      else (let r' = ltree_merge ra (LNode pb kb nb lb rb)
            in if ltree_npl la < ltree_npl r'
               then LNode pa ka (1 + ltree_npl la) r' la
               else LNode pa ka (1 + ltree_npl r') la r'))"
  by pat_completeness auto
termination
  by (relation "measure (\<lambda>(a, b). size a + size b)") auto

section \<open>skew\_heap.c: the skew heap\<close>

text \<open>
  \<^verbatim>\<open>struct SkewNode { int key; struct SkewNode *left, *right; }\<close>; the fields are named
  \<open>sn_key\<close>, \<open>sn_left\<close>, \<open>sn_right\<close>.
\<close>

record SkewNode =
  sn_key :: int
  sn_left :: "addr option"
  sn_right :: "addr option"

definition skew_new_node :: "SkewNode memory \<Rightarrow> int \<Rightarrow> SkewNode memory \<times> addr" where
  "skew_new_node m k = malloc m \<lparr>sn_key = k, sn_left = None, sn_right = None\<rparr>"

text \<open>The part of \<^verbatim>\<open>skew_merge\<close> after the recursive call: the unconditional swap of the children of \<open>a\<close>.\<close>

definition skew_swap :: "SkewNode memory \<Rightarrow> addr \<Rightarrow> SkewNode memory" where
  "skew_swap m a =
     (let tmp = sn_left (cells m a);
          m' = update_cell m a (\<lambda>n. n\<lparr>sn_left := sn_right (cells m a)\<rparr>)
      in update_cell m' a (\<lambda>n. n\<lparr>sn_right := tmp\<rparr>))"

fun skew_merge ::
  "nat \<Rightarrow> SkewNode memory \<Rightarrow> addr option \<Rightarrow> addr option \<Rightarrow> (SkewNode memory \<times> addr option) option" where
  "skew_merge 0 m a b = None"
| "skew_merge (Suc fuel) m None b = Some (m, b)"
| "skew_merge (Suc fuel) m (Some a) None = Some (m, Some a)"
| "skew_merge (Suc fuel) m (Some a0) (Some b0) =
     (let (a, b) = (if sn_key (cells m b0) < sn_key (cells m a0) then (b0, a0) else (a0, b0))
      in case skew_merge fuel m (sn_right (cells m a)) (Some b) of
           None \<Rightarrow> None
         | Some (m1, r) \<Rightarrow>
             Some (skew_swap (update_cell m1 a (\<lambda>n. n\<lparr>sn_right := r\<rparr>)) a, Some a))"

definition skew_insert ::
  "nat \<Rightarrow> SkewNode memory \<Rightarrow> addr option \<Rightarrow> int \<Rightarrow> (SkewNode memory \<times> addr option) option" where
  "skew_insert fuel m heap k =
     (let (m1, n) = skew_new_node m k in skew_merge fuel m1 heap (Some n))"

definition skew_find_min :: "SkewNode memory \<Rightarrow> addr option \<Rightarrow> fault + int" where
  "skew_find_min m heap =
     (case heap of None \<Rightarrow> Inl AssertionFailed | Some p \<Rightarrow> Inr (sn_key (cells m p)))"

definition skew_delete_min ::
  "nat \<Rightarrow> SkewNode memory \<Rightarrow> addr option \<Rightarrow> (fault + SkewNode memory \<times> addr option) option" where
  "skew_delete_min fuel m heap =
     (case heap of
        None \<Rightarrow> Some (Inl AssertionFailed)
      | Some p \<Rightarrow>
          (case skew_merge fuel m (sn_left (cells m p)) (sn_right (cells m p)) of
             None \<Rightarrow> None
           | Some (m1, res) \<Rightarrow> Some (Inr (free m1 p, res))))"

fun skew_clone ::
  "nat \<Rightarrow> SkewNode memory \<Rightarrow> addr option \<Rightarrow> (SkewNode memory \<times> addr option) option" where
  "skew_clone 0 m h = None"
| "skew_clone (Suc fuel) m None = Some (m, None)"
| "skew_clone (Suc fuel) m (Some h) =
     (let (m1, n) = skew_new_node m (sn_key (cells m h))
      in case skew_clone fuel m1 (sn_left (cells m1 h)) of
           None \<Rightarrow> None
         | Some (m2, cl) \<Rightarrow>
             (let m3 = update_cell m2 n (\<lambda>c. c\<lparr>sn_left := cl\<rparr>)
              in case skew_clone fuel m3 (sn_right (cells m3 h)) of
                   None \<Rightarrow> None
                 | Some (m4, cr) \<Rightarrow> Some (update_cell m4 n (\<lambda>c. c\<lparr>sn_right := cr\<rparr>), Some n)))"

definition skew_merge_persistent ::
  "nat \<Rightarrow> SkewNode memory \<Rightarrow> addr option \<Rightarrow> addr option \<Rightarrow> (SkewNode memory \<times> addr option) option" where
  "skew_merge_persistent fuel m a b =
     (case skew_clone fuel m a of
        None \<Rightarrow> None
      | Some (m1, ca) \<Rightarrow>
          (case skew_clone fuel m1 b of
             None \<Rightarrow> None
           | Some (m2, cb) \<Rightarrow> skew_merge fuel m2 ca cb))"

text \<open>The shape of the nodes reachable from a pointer, as for the leftist heap.\<close>

datatype stree = SLeaf | SNode addr int stree stree

fun stree_at :: "(addr \<Rightarrow> SkewNode) \<Rightarrow> addr option \<Rightarrow> stree \<Rightarrow> bool" where
  "stree_at c None SLeaf = True"
| "stree_at c (Some p) (SNode q k l r) =
     (p = q \<and> sn_key (c p) = k \<and> stree_at c (sn_left (c p)) l \<and> stree_at c (sn_right (c p)) r)"
| "stree_at c None (SNode q k l r) = False"
| "stree_at c (Some p) SLeaf = False"

fun stree_addrs :: "stree \<Rightarrow> addr list" where
  "stree_addrs SLeaf = []"
| "stree_addrs (SNode p k l r) = p # stree_addrs l @ stree_addrs r"

fun stree_keys :: "stree \<Rightarrow> int list" where
  "stree_keys SLeaf = []"
| "stree_keys (SNode p k l r) = k # stree_keys l @ stree_keys r"

fun stree_same :: "stree \<Rightarrow> stree \<Rightarrow> bool" where
  "stree_same SLeaf SLeaf = True"
| "stree_same (SNode p k l r) (SNode p' k' l' r') = (k = k' \<and> stree_same l l' \<and> stree_same r r')"
| "stree_same SLeaf (SNode p' k' l' r') = False"
| "stree_same (SNode p k l r) SLeaf = False"

function stree_merge :: "stree \<Rightarrow> stree \<Rightarrow> stree" where
  "stree_merge SLeaf b = b"
| "stree_merge (SNode p k l r) SLeaf = SNode p k l r"
| "stree_merge (SNode pa ka la ra) (SNode pb kb lb rb) =
     (if kb < ka
      then SNode pb kb (stree_merge rb (SNode pa ka la ra)) lb
      else SNode pa ka (stree_merge ra (SNode pb kb lb rb)) la)"
  by pat_completeness auto
termination
  by (relation "measure (\<lambda>(a, b). size a + size b)") auto

section \<open>binomial\_heap.c: the binomial heap\<close>

text \<open>
  \<^verbatim>\<open>struct BinomialNode { int key; int degree; struct BinomialNode *parent, *child, *sibling; }\<close>;
  the fields are named \<open>bn_key\<close>, \<open>bn_degree\<close>, \<open>bn_parent\<close>, \<open>bn_child\<close>,
  \<open>bn_sibling\<close>. A \<^verbatim>\<open>BinomialHeap\<close> holds only the pointer \<^verbatim>\<open>head\<close>, and
  \<^verbatim>\<open>binomial_merge\<close> returns a heap object of its own, so a heap is modelled by the value
  of its \<^verbatim>\<open>head\<close>; the empty heap of \<^verbatim>\<open>binomial_create\<close> is \<open>None\<close>.
\<close>

record BinomialNode =
  bn_key :: int
  bn_degree :: int
  bn_parent :: "addr option"
  bn_child :: "addr option"
  bn_sibling :: "addr option"

definition binomial_new_node :: "BinomialNode memory \<Rightarrow> int \<Rightarrow> BinomialNode memory \<times> addr" where
  "binomial_new_node m k =
     malloc m \<lparr>bn_key = k, bn_degree = 0, bn_parent = None, bn_child = None, bn_sibling = None\<rparr>"

definition binomial_create :: "addr option" where
  "binomial_create = None"

definition binomial_link :: "BinomialNode memory \<Rightarrow> addr \<Rightarrow> addr \<Rightarrow> BinomialNode memory \<times> addr" where
  "binomial_link m a0 b0 =
     (let (a, b) = (if bn_key (cells m b0) < bn_key (cells m a0) then (b0, a0) else (a0, b0));
          m1 = update_cell m b (\<lambda>n. n\<lparr>bn_parent := Some a\<rparr>);
          m2 = update_cell m1 b (\<lambda>n. n\<lparr>bn_sibling := bn_child (cells m1 a)\<rparr>);
          m3 = update_cell m2 a (\<lambda>n. n\<lparr>bn_child := Some b\<rparr>);
          m4 = update_cell m3 a (\<lambda>n. n\<lparr>bn_degree := bn_degree (cells m3 a) + 1\<rparr>)
      in (m4, a))"

text \<open>
  \<^verbatim>\<open>merge_roots\<close> appends through \<^verbatim>\<open>BinomialNode **pos\<close>, which points either to the
  local variable \<^verbatim>\<open>head\<close> (\<open>None\<close>) or to the \<^verbatim>\<open>sibling\<close> field of a node
  (\<open>Some p\<close>). \<open>store_pos\<close> is the assignment \<^verbatim>\<open>*pos = v\<close>; it returns the memory and
  the value of \<^verbatim>\<open>head\<close>.
\<close>

definition store_pos ::
  "BinomialNode memory \<Rightarrow> addr option \<Rightarrow> addr option \<Rightarrow> addr option \<Rightarrow> BinomialNode memory \<times> addr option" where
  "store_pos m head pos v =
     (case pos of
        None \<Rightarrow> (m, v)
      | Some p \<Rightarrow> (update_cell m p (\<lambda>n. n\<lparr>bn_sibling := v\<rparr>), head))"

fun merge_roots_loop ::
  "nat \<Rightarrow> BinomialNode memory \<Rightarrow> addr option \<Rightarrow> addr option \<Rightarrow> addr option \<Rightarrow> addr option
     \<Rightarrow> (BinomialNode memory \<times> addr option) option" where
  "merge_roots_loop 0 m head pos a b = None"
| "merge_roots_loop (Suc fuel) m head pos (Some x) (Some y) =
     (if bn_degree (cells m x) \<le> bn_degree (cells m y)
      then (let (m1, head1) = store_pos m head pos (Some x)
            in merge_roots_loop fuel m1 head1 (Some x) (bn_sibling (cells m1 x)) (Some y))
      else (let (m1, head1) = store_pos m head pos (Some y)
            in merge_roots_loop fuel m1 head1 (Some y) (Some x) (bn_sibling (cells m1 y))))"
| "merge_roots_loop (Suc fuel) m head pos a b =
     Some (store_pos m head pos (if a \<noteq> None then a else b))"

definition merge_roots ::
  "nat \<Rightarrow> BinomialNode memory \<Rightarrow> addr option \<Rightarrow> addr option \<Rightarrow> (BinomialNode memory \<times> addr option) option" where
  "merge_roots fuel m a b =
     (if a = None then Some (m, b)
      else if b = None then Some (m, a)
      else merge_roots_loop fuel m None None a b)"

text \<open>The consolidation loop of \<^verbatim>\<open>binomial_merge\<close> on \<^verbatim>\<open>prev\<close>, \<^verbatim>\<open>curr\<close> (here \<open>cur\<close>), \<^verbatim>\<open>next\<close>.\<close>

fun binomial_merge_loop ::
  "nat \<Rightarrow> BinomialNode memory \<Rightarrow> addr option \<Rightarrow> addr option \<Rightarrow> addr \<Rightarrow> addr option
     \<Rightarrow> (BinomialNode memory \<times> addr option) option" where
  "binomial_merge_loop 0 m head prev cur next = None"
| "binomial_merge_loop (Suc fuel) m head prev cur None = Some (m, head)"
| "binomial_merge_loop (Suc fuel) m head prev cur (Some nx) =
     (if bn_degree (cells m cur) \<noteq> bn_degree (cells m nx)
         \<or> (case bn_sibling (cells m nx) of
               None \<Rightarrow> False
             | Some ns \<Rightarrow> bn_degree (cells m ns) = bn_degree (cells m cur))
      then binomial_merge_loop fuel m head (Some cur) nx (bn_sibling (cells m nx))
      else (let (m1, c) = binomial_link m cur nx;
                (m2, head2) = (case prev of
                                 Some p \<Rightarrow> (update_cell m1 p (\<lambda>n. n\<lparr>bn_sibling := Some c\<rparr>), head)
                               | None \<Rightarrow> (m1, Some c))
            in binomial_merge_loop fuel m2 head2 prev c (bn_sibling (cells m2 c))))"

definition binomial_merge ::
  "nat \<Rightarrow> BinomialNode memory \<Rightarrow> addr option \<Rightarrow> addr option \<Rightarrow> (BinomialNode memory \<times> addr option) option" where
  "binomial_merge fuel m h1 h2 =
     (case merge_roots fuel m h1 h2 of
        None \<Rightarrow> None
      | Some (m1, head) \<Rightarrow>
          (case head of
             None \<Rightarrow> Some (m1, None)
           | Some c \<Rightarrow> binomial_merge_loop fuel m1 head None c (bn_sibling (cells m1 c))))"

definition binomial_insert ::
  "nat \<Rightarrow> BinomialNode memory \<Rightarrow> addr option \<Rightarrow> int \<Rightarrow> (BinomialNode memory \<times> addr option) option" where
  "binomial_insert fuel m heap k =
     (let (m1, n) = binomial_new_node m k in binomial_merge fuel m1 heap (Some n))"

definition INT_MAX :: int where
  "INT_MAX = 2147483647"

fun find_min_loop :: "nat \<Rightarrow> BinomialNode memory \<Rightarrow> addr option \<Rightarrow> int \<Rightarrow> int option" where
  "find_min_loop 0 m n mn = None"
| "find_min_loop (Suc fuel) m None mn = Some mn"
| "find_min_loop (Suc fuel) m (Some n) mn =
     find_min_loop fuel m (bn_sibling (cells m n)) (if bn_key (cells m n) < mn then bn_key (cells m n) else mn)"

definition binomial_find_min :: "nat \<Rightarrow> BinomialNode memory \<Rightarrow> addr option \<Rightarrow> (fault + int) option" where
  "binomial_find_min fuel m head =
     (case head of
        None \<Rightarrow> Some (Inl AssertionFailed)
      | Some h \<Rightarrow> (case find_min_loop fuel m head INT_MAX of None \<Rightarrow> None | Some v \<Rightarrow> Some (Inr v)))"

text \<open>
  The first loop of \<^verbatim>\<open>binomial_delete_min\<close>,
  \<^verbatim>\<open>for (n = head; n->sibling; n = n->sibling)\<close>, on \<^verbatim>\<open>n\<close>, \<^verbatim>\<open>min_node\<close> and
  \<^verbatim>\<open>min_prev\<close>; it returns the last two.
\<close>

fun delete_min_scan ::
  "nat \<Rightarrow> BinomialNode memory \<Rightarrow> addr \<Rightarrow> addr \<Rightarrow> addr option \<Rightarrow> (addr \<times> addr option) option" where
  "delete_min_scan 0 m n min_node min_prev = None"
| "delete_min_scan (Suc fuel) m n min_node min_prev =
     (case bn_sibling (cells m n) of
        None \<Rightarrow> Some (min_node, min_prev)
      | Some s \<Rightarrow>
          if bn_key (cells m s) < bn_key (cells m min_node)
          then delete_min_scan fuel m s s (Some n)
          else delete_min_scan fuel m s min_node min_prev)"

text \<open>The loop of \<^verbatim>\<open>binomial_delete_min\<close> that reverses the list of children; \<open>rv\<close> is the variable \<^verbatim>\<open>rev\<close>.\<close>

fun reverse_children ::
  "nat \<Rightarrow> BinomialNode memory \<Rightarrow> addr option \<Rightarrow> addr option \<Rightarrow> (BinomialNode memory \<times> addr option) option" where
  "reverse_children 0 m child rv = None"
| "reverse_children (Suc fuel) m None rv = Some (m, rv)"
| "reverse_children (Suc fuel) m (Some c) rv =
     (let next = bn_sibling (cells m c);
          m1 = update_cell m c (\<lambda>n. n\<lparr>bn_sibling := rv\<rparr>);
          m2 = update_cell m1 c (\<lambda>n. n\<lparr>bn_parent := None\<rparr>)
      in reverse_children fuel m2 next (Some c))"

text \<open>
  \<^verbatim>\<open>binomial_delete_min\<close> has no assertion. With \<^verbatim>\<open>head == NULL\<close> the condition
  \<^verbatim>\<open>n->sibling\<close> of its first loop reads through the \<^verbatim>\<open>NULL\<close> pointer \<^verbatim>\<open>n\<close>.
\<close>

definition binomial_delete_min ::
  "nat \<Rightarrow> BinomialNode memory \<Rightarrow> addr option \<Rightarrow> (fault + BinomialNode memory \<times> addr option) option" where
  "binomial_delete_min fuel m head =
     (case head of
        None \<Rightarrow> Some (Inl NullDereference)
      | Some h \<Rightarrow>
          (case delete_min_scan fuel m h h None of
             None \<Rightarrow> None
           | Some (min_node, min_prev) \<Rightarrow>
               (let (m1, head1) =
                      (case min_prev of
                         Some mp \<Rightarrow> (update_cell m mp (\<lambda>n. n\<lparr>bn_sibling := bn_sibling (cells m min_node)\<rparr>), head)
                       | None \<Rightarrow> (m, bn_sibling (cells m min_node)))
                in case reverse_children fuel m1 (bn_child (cells m1 min_node)) None of
                     None \<Rightarrow> None
                   | Some (m2, rv) \<Rightarrow>
                       (case binomial_merge fuel m2 head1 rv of
                          None \<Rightarrow> None
                        | Some (m3, h') \<Rightarrow> Some (Inr (free m3 min_node, h'))))))"

text \<open>
  Observations on a binomial heap. \<open>root_degrees\<close> walks the root list from \<^verbatim>\<open>head\<close>
  along \<^verbatim>\<open>sibling\<close> and returns the degrees it meets. \<open>binomial_drain\<close> is the
  delete-min drain: while the heap is not empty, read \<^verbatim>\<open>binomial_find_min\<close> and call
  \<^verbatim>\<open>binomial_delete_min\<close>; it returns the keys read.
\<close>

fun root_degrees :: "nat \<Rightarrow> BinomialNode memory \<Rightarrow> addr option \<Rightarrow> int list option" where
  "root_degrees 0 m n = None"
| "root_degrees (Suc fuel) m None = Some []"
| "root_degrees (Suc fuel) m (Some n) =
     (case root_degrees fuel m (bn_sibling (cells m n)) of
        None \<Rightarrow> None
      | Some ds \<Rightarrow> Some (bn_degree (cells m n) # ds))"

fun binomial_drain :: "nat \<Rightarrow> BinomialNode memory \<Rightarrow> addr option \<Rightarrow> (fault + int list) option" where
  "binomial_drain 0 m head = None"
| "binomial_drain (Suc fuel) m None = Some (Inr [])"
| "binomial_drain (Suc fuel) m (Some h) =
     (case binomial_find_min (Suc fuel) m (Some h) of
        None \<Rightarrow> None
      | Some (Inl e) \<Rightarrow> Some (Inl e)
      | Some (Inr k) \<Rightarrow>
          (case binomial_delete_min (Suc fuel) m (Some h) of
             None \<Rightarrow> None
           | Some (Inl e) \<Rightarrow> Some (Inl e)
           | Some (Inr (m', head')) \<Rightarrow>
               (case binomial_drain fuel m' head' of
                  None \<Rightarrow> None
                | Some (Inl e) \<Rightarrow> Some (Inl e)
                | Some (Inr ks) \<Rightarrow> Some (Inr (k # ks)))))"

text \<open>A sequence of calls of \<^verbatim>\<open>binomial_insert\<close> on the variable \<^verbatim>\<open>heap\<close>.\<close>

fun binomial_inserts ::
  "nat \<Rightarrow> BinomialNode memory \<Rightarrow> addr option \<Rightarrow> int list \<Rightarrow> (BinomialNode memory \<times> addr option) option" where
  "binomial_inserts fuel m heap [] = Some (m, heap)"
| "binomial_inserts fuel m heap (k # ks) =
     (case binomial_insert fuel m heap k of
        None \<Rightarrow> None
      | Some (m', heap') \<Rightarrow> binomial_inserts fuel m' heap' ks)"

definition empty_binomial_memory :: "BinomialNode memory" where
  "empty_binomial_memory =
     \<lparr>cells = (\<lambda>_. \<lparr>bn_key = 0, bn_degree = 0, bn_parent = None, bn_child = None, bn_sibling = None\<rparr>),
      brk = 0, freed = {}\<rparr>"

section \<open>Example states\<close>

text \<open>Concrete memories on which the results below are exercised.\<close>

definition two_leftist_heaps :: "LeftistNode memory" where
  "two_leftist_heaps =
     \<lparr>cells = (\<lambda>_. \<lparr>ln_key = 0, ln_npl = 0, ln_left = None, ln_right = None\<rparr>)
        (0 := \<lparr>ln_key = 4, ln_npl = 0, ln_left = Some 1, ln_right = None\<rparr>,
         1 := \<lparr>ln_key = 7, ln_npl = 0, ln_left = None, ln_right = None\<rparr>,
         2 := \<lparr>ln_key = 5, ln_npl = 0, ln_left = None, ln_right = None\<rparr>),
      brk = 3, freed = {}\<rparr>"

definition two_skew_heaps :: "SkewNode memory" where
  "two_skew_heaps =
     \<lparr>cells = (\<lambda>_. \<lparr>sn_key = 0, sn_left = None, sn_right = None\<rparr>)
        (0 := \<lparr>sn_key = 4, sn_left = Some 1, sn_right = None\<rparr>,
         1 := \<lparr>sn_key = 7, sn_left = None, sn_right = None\<rparr>,
         2 := \<lparr>sn_key = 5, sn_left = None, sn_right = None\<rparr>),
      brk = 3, freed = {}\<rparr>"

definition two_array_heaps :: heap_store where
  "two_array_heaps =
     \<lparr>heaps = [0 \<mapsto> \<lparr>data = [3, 5, 8], size_h = 3, capacity = 3, is_min = True\<rparr>,
               1 \<mapsto> \<lparr>data = [1, 9, 0, 0], size_h = 2, capacity = 4, is_min = True\<rparr>],
      next_heap = 2\<rparr>"

section \<open>Results\<close>

subsection \<open>Array heap: fields that sifting leaves alone\<close>

lemma heap_sift_down_fields [simp]:
  "is_min (heap_sift_down h i) = is_min h"
  "size_h (heap_sift_down h i) = size_h h"
  "capacity (heap_sift_down h i) = capacity h"
  "length (data (heap_sift_down h i)) = length (data h)"
proof (induction h i rule: heap_sift_down.induct)
  case (1 h idx)
  {
    case 1
    from "1.IH"(1) show ?case
      by (subst heap_sift_down.simps) (simp add: Let_def)
  next
    case 2
    from "1.IH"(2) show ?case
      by (subst heap_sift_down.simps) (simp add: Let_def)
  next
    case 3
    from "1.IH"(3) show ?case
      by (subst heap_sift_down.simps) (simp add: Let_def)
  next
    case 4
    from "1.IH"(4) show ?case
      by (subst heap_sift_down.simps) (simp add: Let_def heap_swap_def)
  }
qed

lemma build_loop_fields [simp]:
  "is_min (build_loop h k) = is_min h"
  "size_h (build_loop h k) = size_h h"
  "capacity (build_loop h k) = capacity h"
  "length (data (build_loop h k)) = length (data h)"
  by (induction k arbitrary: h) simp_all

lemma is_min_heap_build_from_array [simp]:
  "is_min (heap_build_from_array arr n m) = m"
  by (simp add: heap_build_from_array_def Let_def)

lemma size_heap_build_from_array [simp]:
  "size_h (heap_build_from_array arr n m) = n"
  by (simp add: heap_build_from_array_def Let_def)

text \<open>
  C8. When \<^verbatim>\<open>heap_merge\<close> or \<^verbatim>\<open>heap_merge_destroy\<close> is called on two heaps configured
  with opposite min/max ordering, the assertion \<^verbatim>\<open>a->is_min == b->is_min\<close> fails: the
  call aborts and no heap is returned. This holds for all sizes, in particular for two
  non-empty heaps.
\<close>

theorem heap_merge_opposite_ordering_fails:
  assumes "heaps s p = Some a" and "heaps s q = Some b"
    and "is_min a \<noteq> is_min b"
  shows "heap_merge s (Some p) (Some q) = Inl AssertionFailed
       \<and> heap_merge_destroy s (Some p) (Some q) = Inl AssertionFailed"
  using assms by (simp add: heap_merge_def heap_merge_destroy_def)

theorem heap_merge_opposite_ordering_fails_witness:
  "heap_merge
     \<lparr>heaps = [0 \<mapsto> heap_build_from_array [5, 3, 8] 3 True,
               1 \<mapsto> heap_build_from_array [1, 9] 2 False], next_heap = 2\<rparr>
     (Some 0) (Some 1) = Inl AssertionFailed
   \<and> heap_merge_destroy
     \<lparr>heaps = [0 \<mapsto> heap_build_from_array [5, 3, 8] 3 True,
               1 \<mapsto> heap_build_from_array [1, 9] 2 False], next_heap = 2\<rparr>
     (Some 0) (Some 1) = Inl AssertionFailed"
proof -
  let ?a = "heap_build_from_array [5, 3, 8] 3 True"
  let ?b = "heap_build_from_array [1, 9] 2 False"
  let ?s = "\<lparr>heaps = [0 \<mapsto> ?a, 1 \<mapsto> ?b], next_heap = 2\<rparr>"
  have a: "heaps ?s 0 = Some ?a" and b: "heaps ?s 1 = Some ?b" by simp_all
  have "is_min ?a \<noteq> is_min ?b"
    by simp
  from heap_merge_opposite_ordering_fails [OF a b this] show ?thesis .
qed


subsection \<open>Binary search tree\<close>

lemma bst_search_iterative_eq:
  "bst_search_iterative root k = Some (bst_search_recursive root k)"
proof (induction root)
  case NIL
  show ?case
    by (simp add: bst_search_iterative_def while_option_unfold search_continues_def)
next
  case (Node rk l r)
  show ?case
  proof (cases "rk = k")
    case True
    then show ?thesis
      by (simp add: bst_search_iterative_def while_option_unfold search_continues_def)
  next
    case False
    have "bst_search_iterative (Node rk l r) k = bst_search_iterative (search_step k (Node rk l r)) k"
      unfolding bst_search_iterative_def
      by (subst while_option_unfold) (simp add: search_continues_def False)
    with False Node show ?thesis
      by (simp add: search_step_def)
  qed
qed

lemma set_bst_insert: "set (bst_inorder (bst_insert t k)) = insert k (set (bst_inorder t))"
  by (induction t) (auto simp: bst_create_node_def)

lemma sorted_bst_insert:
  "sorted_wrt (<) (bst_inorder t) \<Longrightarrow> sorted_wrt (<) (bst_inorder (bst_insert t k))"
  by (induction t) (auto simp: bst_create_node_def sorted_wrt_append set_bst_insert)

lemma bst_min_loop_key:
  "bst_min_loop k l r = Node sk sl sr \<Longrightarrow>
     sk \<in> set (bst_inorder (Node k l r)) \<and> sl = NIL"
  by (induction k l r rule: bst_min_loop.induct) auto

lemma bst_min_loop_Node: "\<exists>sk sr. bst_min_loop k l r = Node sk NIL sr"
  by (induction k l r rule: bst_min_loop.induct) auto

lemma bst_min_loop_least:
  "sorted_wrt (<) (bst_inorder (Node k l r)) \<Longrightarrow> bst_min_loop k l r = Node sk sl sr \<Longrightarrow>
     \<forall>x \<in> set (bst_inorder (Node k l r)). sk \<le> x"
  by (induction k l r rule: bst_min_loop.induct) (fastforce simp: sorted_wrt_append)+

lemma bst_delete_ok:
  "sorted_wrt (<) (bst_inorder t) \<Longrightarrow>
     \<exists>t'. bst_delete t k = Inr t' \<and> set (bst_inorder t') = set (bst_inorder t) - {k}
        \<and> sorted_wrt (<) (bst_inorder t')"
proof (induction t k rule: bst_delete.induct)
  case (1 k)
  show ?case by simp
next
  case (2 rk l r k)
  from "2.prems" have sl: "sorted_wrt (<) (bst_inorder l)" and sr: "sorted_wrt (<) (bst_inorder r)"
    and ll: "\<forall>x \<in> set (bst_inorder l). x < rk" and rr: "\<forall>x \<in> set (bst_inorder r). rk < x"
    by (auto simp: sorted_wrt_append)
  consider (lt) "k < rk" | (gt) "k > rk" | (leaf) "k = rk" "l = NIL" "r = NIL"
    | (onlyr) "k = rk" "l = NIL" "r \<noteq> NIL" | (onlyl) "k = rk" "l \<noteq> NIL" "r = NIL"
    | (two) "k = rk" "l \<noteq> NIL" "r \<noteq> NIL"
    by fastforce
  then show ?case
  proof cases
    case lt
    from "2.IH"(1) [OF lt sl] obtain l' where l': "bst_delete l k = Inr l'"
      "set (bst_inorder l') = set (bst_inorder l) - {k}" "sorted_wrt (<) (bst_inorder l')"
      by blast
    with lt sr ll rr show ?thesis
      by (fastforce simp: sorted_wrt_append)
  next
    case gt
    then have ng: "\<not> k < rk" by simp
    from "2.IH"(2) [OF ng gt sr] obtain r' where r': "bst_delete r k = Inr r'"
      "set (bst_inorder r') = set (bst_inorder r) - {k}" "sorted_wrt (<) (bst_inorder r')"
      by blast
    with gt sl ll rr show ?thesis
      by (fastforce simp: sorted_wrt_append)
  next
    case leaf
    then show ?thesis by simp
  next
    case onlyr
    with sr rr show ?thesis by auto
  next
    case onlyl
    with sl ll show ?thesis by auto
  next
    case two
    from two(3) obtain k0 l0 r0 where r: "r = Node k0 l0 r0" by (cases r) auto
    obtain sk sr' where m: "bst_min_loop k0 l0 r0 = Node sk NIL sr'"
      using bst_min_loop_Node by blast
    then have bm: "bst_min r = Inr (Node sk NIL sr')" by (simp add: bst_min_def r)
    from bst_min_loop_key [OF m] have skin: "sk \<in> set (bst_inorder r)" by (simp add: r)
    from bst_min_loop_least [OF _ m] sr have least: "\<forall>x \<in> set (bst_inorder r). sk \<le> x"
      by (simp add: r)
    have n1: "\<not> k < rk" "\<not> k > rk" "\<not> (l = NIL \<and> r = NIL)" "l \<noteq> NIL" "r \<noteq> NIL"
      using two by simp_all
    from "2.IH"(3) [OF n1 bm refl sr]
    obtain r' where r': "bst_delete r sk = Inr r'"
      "set (bst_inorder r') = set (bst_inorder r) - {sk}" "sorted_wrt (<) (bst_inorder r')"
      by blast
    have res: "bst_delete (Node rk l r) k = Inr (Node sk l r')"
      using two bm r' by simp
    have "\<forall>x \<in> set (bst_inorder r'). sk < x"
      using r'(2) least by fastforce
    moreover have "rk < sk" using rr skin by blast
    ultimately have "sorted_wrt (<) (bst_inorder (Node sk l r'))"
      using sl ll r'(3) by (fastforce simp: sorted_wrt_append)
    moreover have "set (bst_inorder (Node sk l r')) = set (bst_inorder (Node rk l r)) - {k}"
      using r'(2) skin two(1) ll rr by auto
    ultimately show ?thesis using res by blast
  qed
qed


lemma bst_search_recursive_found:
  "bst_search_recursive root k = NIL \<or> (\<exists>l r. bst_search_recursive root k = Node k l r)"
  by (induction root) auto

lemma bst_search_recursive_absent:
  "k \<notin> set (bst_inorder root) \<Longrightarrow> bst_search_recursive root k = NIL"
  by (induction root) auto

lemma bst_search_recursive_present:
  "sorted_wrt (<) (bst_inorder root) \<Longrightarrow> k \<in> set (bst_inorder root) \<Longrightarrow>
     \<exists>l r. bst_search_recursive root k = Node k l r"
  by (induction root) (fastforce simp: sorted_wrt_append)+

text \<open>
  C10. For every tree and every key, the loop of \<^verbatim>\<open>bst_search_iterative\<close> ends and
  returns the node that \<^verbatim>\<open>bst_search_recursive\<close> returns. That node is either
  \<^verbatim>\<open>NULL\<close> or a node holding the key; it is \<^verbatim>\<open>NULL\<close> when the key is absent, and
  on a binary search tree it is a node holding the key when the key is present.
\<close>

theorem bst_search_recursive_iterative_agree:
  "bst_search_iterative root k = Some (bst_search_recursive root k)
   \<and> (bst_search_recursive root k = NIL \<or> (\<exists>l r. bst_search_recursive root k = Node k l r))
   \<and> (k \<notin> set (bst_inorder root) \<longrightarrow> bst_search_recursive root k = NIL)
   \<and> (sorted_wrt (<) (bst_inorder root) \<and> k \<in> set (bst_inorder root)
        \<longrightarrow> (\<exists>l r. bst_search_recursive root k = Node k l r))"
  using bst_search_iterative_eq [of root k] bst_search_recursive_found [of root k]
    bst_search_recursive_absent [of k root] bst_search_recursive_present [of root k]
  by blast

text \<open>C10 at a concrete tree, for a key that is present and for one that is absent.\<close>

theorem bst_search_recursive_iterative_agree_witness:
  "bst_search_iterative (Node 50 (Node 30 NIL NIL) (Node 70 (Node 60 NIL NIL) NIL)) 60
     = Some (Node 60 NIL NIL)
   \<and> bst_search_recursive (Node 50 (Node 30 NIL NIL) (Node 70 (Node 60 NIL NIL) NIL)) 60
     = Node 60 NIL NIL
   \<and> bst_search_iterative (Node 50 (Node 30 NIL NIL) (Node 70 (Node 60 NIL NIL) NIL)) 65
     = Some NIL
   \<and> 65 \<notin> set (bst_inorder (Node 50 (Node 30 NIL NIL) (Node 70 (Node 60 NIL NIL) NIL)))
   \<and> sorted_wrt (<) (bst_inorder (Node 50 (Node 30 NIL NIL) (Node 70 (Node 60 NIL NIL) NIL)))
   \<and> 60 \<in> set (bst_inorder (Node 50 (Node 30 NIL NIL) (Node 70 (Node 60 NIL NIL) NIL)))"
  using bst_search_recursive_iterative_agree
          [of "Node 50 (Node 30 NIL NIL) (Node 70 (Node 60 NIL NIL) NIL)" 60]
        bst_search_recursive_iterative_agree
          [of "Node 50 (Node 30 NIL NIL) (Node 70 (Node 60 NIL NIL) NIL)" 65]
  by simp

subsection \<open>Treap\<close>

lemma treap_split_inorder:
  "treap_split t k = (l, r) \<Longrightarrow> treap_inorder l @ treap_inorder r = treap_inorder t"
  by (induction t arbitrary: l r) (auto split: if_splits prod.splits)

lemma treap_split_priorities:
  "treap_split t k = (l, r) \<Longrightarrow> treap_priorities l @ treap_priorities r = treap_priorities t"
  by (induction t arbitrary: l r) (auto split: if_splits prod.splits)

lemma treap_split_keys:
  "sorted (treap_inorder t) \<Longrightarrow> treap_split t k = (l, r) \<Longrightarrow>
     (\<forall>x \<in> set (treap_inorder l). x < k) \<and> (\<forall>x \<in> set (treap_inorder r). k \<le> x)"
proof (induction t arbitrary: l r)
  case TNIL
  then show ?case by simp
next
  case (TreapNode tk tp tleft tright)
  from TreapNode.prems(1) have sl: "sorted (treap_inorder tleft)" and sr: "sorted (treap_inorder tright)"
    and ll: "\<forall>x \<in> set (treap_inorder tleft). x \<le> tk" and rr: "\<forall>x \<in> set (treap_inorder tright). tk \<le> x"
    by (auto simp: sorted_append)
  show ?case
  proof (cases "k \<le> tk")
    case True
    obtain l1 r1 where sp: "treap_split tleft k = (l1, r1)" by fastforce
    with True TreapNode.prems(2) have lr: "l = l1" "r = TreapNode tk tp r1 tright" by auto
    from TreapNode.IH(1) [OF sl sp] True rr show ?thesis
      unfolding lr by fastforce
  next
    case False
    obtain l1 r1 where sp: "treap_split tright k = (l1, r1)" by fastforce
    with False TreapNode.prems(2) have lr: "l = TreapNode tk tp tleft l1" "r = r1" by auto
    from TreapNode.IH(2) [OF sr sp] False ll show ?thesis
      unfolding lr by fastforce
  qed
qed

lemma set_treap_split_priorities:
  assumes "treap_split t k = (l, r)"
  shows "set (treap_priorities l) \<subseteq> set (treap_priorities t)"
    and "set (treap_priorities r) \<subseteq> set (treap_priorities t)"
  using treap_split_priorities [OF assms, symmetric] by auto

lemma treap_split_heap_ordered:
  "treap_heap_ordered t \<Longrightarrow> treap_split t k = (l, r) \<Longrightarrow>
     treap_heap_ordered l \<and> treap_heap_ordered r"
proof (induction t arbitrary: l r)
  case TNIL
  then show ?case by simp
next
  case (TreapNode tk tp tleft tright)
  show ?case
  proof (cases "k \<le> tk")
    case True
    obtain l1 r1 where sp: "treap_split tleft k = (l1, r1)" by fastforce
    with True TreapNode.prems(2) have lr: "l = l1" "r = TreapNode tk tp r1 tright" by auto
    from TreapNode.IH(1) [OF _ sp] TreapNode.prems(1) set_treap_split_priorities(2) [OF sp]
    show ?thesis unfolding lr by (auto simp: list_all_iff)
  next
    case False
    obtain l1 r1 where sp: "treap_split tright k = (l1, r1)" by fastforce
    with False TreapNode.prems(2) have lr: "l = TreapNode tk tp tleft l1" "r = r1" by auto
    from TreapNode.IH(2) [OF _ sp] TreapNode.prems(1) set_treap_split_priorities(1) [OF sp]
    show ?thesis unfolding lr by (auto simp: list_all_iff)
  qed
qed

lemma treap_merge_inorder: "treap_inorder (treap_merge l r) = treap_inorder l @ treap_inorder r"
  by (induction l r rule: treap_merge.induct) auto

lemma treap_merge_priorities:
  "treap_priorities (treap_merge l r) = treap_priorities l @ treap_priorities r"
  by (induction l r rule: treap_merge.induct) auto

lemma treap_merge_heap_ordered:
  "treap_heap_ordered l \<Longrightarrow> treap_heap_ordered r \<Longrightarrow> treap_heap_ordered (treap_merge l r)"
  by (induction l r rule: treap_merge.induct)
     (auto simp: treap_merge_priorities list_all_iff)

lemma treap_insert_inorder:
  "treap_inorder (treap_insert t k p) = filter (\<lambda>x. x < k) (treap_inorder t) @ k # filter (\<lambda>x. k \<le> x) (treap_inorder t)"
  if "sorted (treap_inorder t)"
proof -
  obtain l r where sp: "treap_split t k = (l, r)" by fastforce
  note io = treap_split_inorder [OF sp] and ks = treap_split_keys [OF that sp]
  have "filter (\<lambda>x. x < k) (treap_inorder l @ treap_inorder r) = treap_inorder l"
    using ks by (auto simp: filter_empty_conv intro: filter_True) 
  moreover have "filter (\<lambda>x. k \<le> x) (treap_inorder l @ treap_inorder r) = treap_inorder r"
    using ks by (auto simp: filter_empty_conv intro: filter_True)
  ultimately show ?thesis
    using io by (simp add: treap_insert_def sp treap_merge_inorder treap_new_node_def del: filter_append)
qed

lemma treap_insert_sorted:
  assumes "sorted (treap_inorder t)"
  shows "sorted (treap_inorder (treap_insert t k p))"
  using assms by (auto simp: treap_insert_inorder sorted_append intro: sorted_wrt_filter) 

lemma treap_insert_strict:
  assumes "sorted_wrt (<) (treap_inorder t)" and "k \<notin> set (treap_inorder t)"
  shows "sorted_wrt (<) (treap_inorder (treap_insert t k p))"
proof -
  from assms(1) have "sorted (treap_inorder t)" by (simp add: strict_sorted_iff)
  with assms show ?thesis
    by (auto simp: treap_insert_inorder sorted_wrt_append intro: sorted_wrt_filter 
       ) (metis less_le)
qed

lemma set_treap_remove: "set (treap_inorder (treap_remove t k)) \<subseteq> set (treap_inorder t)"
  by (induction t) (auto simp: treap_merge_inorder)

lemma treap_remove_sorted:
  "sorted (treap_inorder t) \<Longrightarrow> sorted (treap_inorder (treap_remove t k))"
  using set_treap_remove by (induction t) (fastforce simp: treap_merge_inorder sorted_append)+

lemma treap_remove_strict:
  "sorted_wrt (<) (treap_inorder t) \<Longrightarrow> sorted_wrt (<) (treap_inorder (treap_remove t k))"
  using set_treap_remove by (induction t) (fastforce simp: treap_merge_inorder sorted_wrt_append)+


text \<open>
  C7. For every valid treap \<open>t\<close> (in-order keys strictly ascending, priorities max-heap
  ordered) and every key \<open>k\<close>, \<^verbatim>\<open>treap_split\<close> yields \<open>l\<close> with all keys \<open>< k\<close> and
  \<open>r\<close> with all keys \<open>\<ge> k\<close>; together they hold the multiset of keys of \<open>t\<close>, and
  both are valid treaps.
\<close>

theorem treap_split_correct:
  assumes "treap_valid t" and "treap_split t k = (l, r)"
  shows "(\<forall>x \<in> set (treap_inorder l). x < k) \<and> (\<forall>x \<in> set (treap_inorder r). k \<le> x)
       \<and> mset (treap_inorder l) + mset (treap_inorder r) = mset (treap_inorder t)
       \<and> treap_valid l \<and> treap_valid r"
proof -
  from assms(1) have st: "sorted_wrt (<) (treap_inorder t)" and ho: "treap_heap_ordered t"
    by (simp_all add: treap_valid_def)
  from st have so: "sorted (treap_inorder t)" by (simp add: strict_sorted_iff)
  note io = treap_split_inorder [OF assms(2)]
  from st have "sorted_wrt (<) (treap_inorder l)" "sorted_wrt (<) (treap_inorder r)"
    unfolding io [symmetric] by (simp_all add: sorted_wrt_append)
  moreover have "mset (treap_inorder l) + mset (treap_inorder r) = mset (treap_inorder t)"
    unfolding io [symmetric] by simp
  ultimately show ?thesis
    using treap_split_keys [OF so assms(2)] treap_split_heap_ordered [OF ho assms(2)]
    by (simp add: treap_valid_def)
qed

text \<open>C7 at a concrete treap, split at key 4.\<close>

theorem treap_split_correct_witness:
  "treap_valid (TreapNode 5 90 (TreapNode 2 40 TNIL (TreapNode 4 10 TNIL TNIL)) (TreapNode 8 70 TNIL TNIL))
   \<and> treap_split (TreapNode 5 90 (TreapNode 2 40 TNIL (TreapNode 4 10 TNIL TNIL)) (TreapNode 8 70 TNIL TNIL)) 4
      = (TreapNode 2 40 TNIL TNIL, TreapNode 5 90 (TreapNode 4 10 TNIL TNIL) (TreapNode 8 70 TNIL TNIL))
   \<and> treap_valid (TreapNode 2 40 TNIL TNIL)
   \<and> treap_valid (TreapNode 5 90 (TreapNode 4 10 TNIL TNIL) (TreapNode 8 70 TNIL TNIL))"
proof -
  let ?t = "TreapNode 5 90 (TreapNode 2 40 TNIL (TreapNode 4 10 TNIL TNIL)) (TreapNode 8 70 TNIL TNIL)"
  have v: "treap_valid ?t" by (simp add: treap_valid_def)
  have s: "treap_split ?t 4
      = (TreapNode 2 40 TNIL TNIL, TreapNode 5 90 (TreapNode 4 10 TNIL TNIL) (TreapNode 8 70 TNIL TNIL))"
    by simp
  from treap_split_correct [OF v s] v s show ?thesis by simp
qed

subsection \<open>In-order walks after sequences of operations\<close>

lemma bst_run_sorted:
  "sorted_wrt (<) (bst_inorder t) \<Longrightarrow>
     \<exists>t'. bst_run t ops = Inr t' \<and> sorted_wrt (<) (bst_inorder t')"
proof (induction ops arbitrary: t)
  case Nil
  then show ?case by simp
next
  case (Cons x ops)
  show ?case
  proof (cases x)
    case (BstInsert k)
    with Cons.IH [OF sorted_bst_insert [OF Cons.prems]] show ?thesis by simp
  next
    case (BstDelete k)
    from bst_delete_ok [OF Cons.prems, of k] obtain t1 where
      "bst_delete t k = Inr t1" "sorted_wrt (<) (bst_inorder t1)" by blast
    with Cons.IH [of t1] BstDelete show ?thesis by simp
  qed
qed

lemma treap_run_sorted:
  "sorted (treap_inorder t) \<Longrightarrow> sorted (treap_inorder (treap_run t ops))"
proof (induction ops arbitrary: t)
  case Nil
  then show ?case by simp
next
  case (Cons x ops)
  then show ?case
    by (cases x) (simp_all add: treap_insert_sorted treap_remove_sorted)
qed

lemma treap_run_strict:
  "sorted_wrt (<) (treap_inorder t) \<Longrightarrow> inserts_absent_keys t ops \<Longrightarrow>
     sorted_wrt (<) (treap_inorder (treap_run t ops))"
proof (induction ops arbitrary: t)
  case Nil
  then show ?case by simp
next
  case (Cons x ops)
  then show ?case
    by (cases x) (simp_all add: treap_insert_strict treap_remove_strict)
qed

text \<open>
  C3, amended. After every sequence of \<^verbatim>\<open>bst_insert\<close>/\<^verbatim>\<open>bst_delete\<close> calls from the
  empty tree, also one that inserts a present key, the in-order walk of the OrderedTree is
  strictly ascending. After every sequence of \<^verbatim>\<open>treap_insert\<close>/\<^verbatim>\<open>treap_remove\<close>
  calls from the empty treap the in-order walk is non-decreasing; it is strictly ascending
  when no call of \<^verbatim>\<open>treap_insert\<close> inserts a key that the treap already holds.
\<close>

theorem inorder_after_operations:
  "(\<exists>t. bst_run NIL ops = Inr t \<and> sorted_wrt (<) (bst_inorder t))
   \<and> sorted (treap_inorder (treap_run TNIL tops))
   \<and> (inserts_absent_keys TNIL tops \<longrightarrow> sorted_wrt (<) (treap_inorder (treap_run TNIL tops)))"
  using bst_run_sorted [of NIL ops] treap_run_sorted [of TNIL tops] treap_run_strict [of TNIL tops]
  by simp

text \<open>C3, amended, at concrete sequences of operations.\<close>

theorem inorder_after_operations_witness:
  "(\<exists>t. bst_run NIL [BstInsert 50, BstInsert 30, BstInsert 70, BstInsert 30, BstInsert 60,
                      BstInsert 80, BstDelete 70] = Inr t
        \<and> sorted_wrt (<) (bst_inorder t))
   \<and> inserts_absent_keys TNIL [TreapInsert 5 40, TreapInsert 2 17, TreapInsert 8 90, TreapRemove 5,
                               TreapInsert 5 3]
   \<and> sorted_wrt (<) (treap_inorder (treap_run TNIL
        [TreapInsert 5 40, TreapInsert 2 17, TreapInsert 8 90, TreapRemove 5, TreapInsert 5 3]))"
proof -
  let ?tops = "[TreapInsert 5 40, TreapInsert 2 17, TreapInsert 8 90, TreapRemove 5, TreapInsert 5 3]"
  have h: "inserts_absent_keys TNIL ?tops"
    by (simp add: treap_insert_def treap_new_node_def)
  from inorder_after_operations [of _ ?tops] h show ?thesis by blast
qed

text \<open>
  C3 as stated fails: \<^verbatim>\<open>treap_insert\<close> has no check for a present key, so inserting
  key 1 twice stores it twice and the in-order walk is \<open>[1, 1]\<close>.
\<close>

theorem treap_duplicate_insert_counterexample:
  "treap_inorder (treap_run TNIL [TreapInsert 1 10, TreapInsert 1 20]) = [1, 1]
   \<and> \<not> sorted_wrt (<) (treap_inorder (treap_run TNIL [TreapInsert 1 10, TreapInsert 1 20]))"
  by (simp add: treap_insert_def treap_new_node_def)

subsection \<open>Leftist heap: the pointer code against the shape of the trees\<close>

lemma ltree_at_npl: "ltree_at (cells m) p t \<Longrightarrow> npl m p = ltree_npl t"
  by (cases p; cases t) (auto simp: npl_def)

lemma ltree_at_frame:
  "\<forall>q \<in> set (ltree_addrs t). c' q = c q \<Longrightarrow> ltree_at c' p t = ltree_at c p t"
proof (induction t arbitrary: p)
  case LLeaf
  show ?case by (cases p) auto
next
  case (LNode q k n l r)
  then show ?case by (cases p) auto
qed

lemma ltree_at_update:
  "a \<notin> set (ltree_addrs t) \<Longrightarrow> ltree_at (c(a := v)) p t = ltree_at c p t"
  by (rule ltree_at_frame) auto

lemma mset_ltree_merge:
  "mset (ltree_addrs (ltree_merge a b)) = mset (ltree_addrs a) + mset (ltree_addrs b)"
  by (induction a b rule: ltree_merge.induct) (auto simp: Let_def)

lemma set_ltree_merge:
  "set (ltree_addrs (ltree_merge a b)) = set (ltree_addrs a) \<union> set (ltree_addrs b)"
  using mset_ltree_merge [of a b] by (metis set_mset_mset set_mset_union)

lemma leftist_merge_step:
  assumes l: "ltree_at (cells m1) (ln_left (cells m1 a)) l"
    and r: "ltree_at (cells m1) r r'"
    and al: "a \<notin> set (ltree_addrs l)" and ar: "a \<notin> set (ltree_addrs r')"
  defines "m2 \<equiv> leftist_fix (update_cell m1 a (\<lambda>n. n\<lparr>ln_right := r\<rparr>)) a"
  shows "ltree_at (cells m2) (Some a)
           (if ltree_npl l < ltree_npl r'
            then LNode a (ln_key (cells m1 a)) (1 + ltree_npl l) r' l
            else LNode a (ln_key (cells m1 a)) (1 + ltree_npl r') l r')"
    and "\<forall>q. q \<noteq> a \<longrightarrow> cells m2 q = cells m1 q"
    and "brk m2 = brk m1" and "freed m2 = freed m1"
proof -
  let ?m = "update_cell m1 a (\<lambda>n. n\<lparr>ln_right := r\<rparr>)"
  have cl: "ltree_at (cells ?m) (ln_left (cells m1 a)) l"
    using l al by (simp add: update_cell_def ltree_at_update)
  have cr: "ltree_at (cells ?m) r r'"
    using r ar by (simp add: update_cell_def ltree_at_update)
  have nl: "npl ?m (ln_left (cells m1 a)) = ltree_npl l" by (rule ltree_at_npl [OF cl])
  have nr: "npl ?m r = ltree_npl r'" by (rule ltree_at_npl [OF cr])
  show "\<forall>q. q \<noteq> a \<longrightarrow> cells m2 q = cells m1 q"
    by (simp add: m2_def leftist_fix_def update_cell_def Let_def)
  show "brk m2 = brk m1" "freed m2 = freed m1"
    by (simp_all add: m2_def leftist_fix_def update_cell_def Let_def)
  have F: "ltree_at (cells m') (ln_left (cells m1 a)) l \<and> ltree_at (cells m') r r'"
    if "\<forall>q. q \<noteq> a \<longrightarrow> cells m' q = cells m1 q" for m' :: "LeftistNode memory"
  proof -
    from that al have "\<forall>q \<in> set (ltree_addrs l). cells m' q = cells m1 q" by metis
    from ltree_at_frame [OF this] l have "ltree_at (cells m') (ln_left (cells m1 a)) l" by simp
    moreover from that ar have "\<forall>q \<in> set (ltree_addrs r'). cells m' q = cells m1 q" by metis
    from ltree_at_frame [OF this] r have "ltree_at (cells m') r r'" by simp
    ultimately show ?thesis by simp
  qed
  have N: "npl m' (ln_left (cells m1 a)) = ltree_npl l \<and> npl m' r = ltree_npl r'"
    if "\<forall>q. q \<noteq> a \<longrightarrow> cells m' q = cells m1 q" for m' :: "LeftistNode memory"
    using F [OF that] by (simp add: ltree_at_npl)
  show "ltree_at (cells m2) (Some a)
           (if ltree_npl l < ltree_npl r'
            then LNode a (ln_key (cells m1 a)) (1 + ltree_npl l) r' l
            else LNode a (ln_key (cells m1 a)) (1 + ltree_npl r') l r')"
    unfolding m2_def leftist_fix_def update_cell_def Let_def
    by (simp add: N F ltree_at_update al ar l r)
qed


lemma leftist_merge_refines:
  "ltree_at (cells m) a ta \<Longrightarrow> ltree_at (cells m) b tb \<Longrightarrow>
   distinct (ltree_addrs ta @ ltree_addrs tb) \<Longrightarrow> size ta + size tb < fuel \<Longrightarrow>
   \<exists>m' r. leftist_merge fuel m a b = Some (m', r)
     \<and> ltree_at (cells m') r (ltree_merge ta tb)
     \<and> (\<forall>q. q \<notin> set (ltree_addrs ta) \<union> set (ltree_addrs tb) \<longrightarrow> cells m' q = cells m q)
     \<and> brk m' = brk m \<and> freed m' = freed m"
proof (induction ta tb arbitrary: fuel m a b rule: ltree_merge.induct)
  case (1 tb)
  then obtain f where "fuel = Suc f" by (cases fuel) auto
  with 1 show ?case by (cases a) auto
next
  case (2 p k n l r)
  then obtain f where "fuel = Suc f" by (cases fuel) auto
  with 2 show ?case by (cases a; cases b) auto
next
  case (3 pa ka na la ra pb kb nb lb rb)
  let ?A = "LNode pa ka na la ra" and ?B = "LNode pb kb nb lb rb"
  from "3.prems"(4) obtain f where fuel: "fuel = Suc f" by (cases fuel) auto
  from "3.prems"(1) have a: "a = Some pa" and ca: "ln_key (cells m pa) = ka"
    and la: "ltree_at (cells m) (ln_left (cells m pa)) la"
    and ra: "ltree_at (cells m) (ln_right (cells m pa)) ra"
    by (cases a; simp)+
  from "3.prems"(2) have b: "b = Some pb" and cb: "ln_key (cells m pb) = kb"
    and lb: "ltree_at (cells m) (ln_left (cells m pb)) lb"
    and rb: "ltree_at (cells m) (ln_right (cells m pb)) rb"
    by (cases b; simp)+
  note d = "3.prems"(3)
  show ?case
  proof (cases "kb < ka")
    case True
    let ?r' = "ltree_merge rb ?A"
    have d1: "distinct (ltree_addrs rb @ ltree_addrs ?A)" using d by auto
    have sz: "size rb + size ?A < f" using "3.prems"(4) fuel by simp
    from "3.IH"(1) [OF True rb _ d1 sz, of "Some pa"] "3.prems"(1) a
    obtain m1 r where rec: "leftist_merge f m (ln_right (cells m pb)) (Some pa) = Some (m1, r)"
      and r': "ltree_at (cells m1) r ?r'"
      and fr: "\<forall>q. q \<notin> set (ltree_addrs rb) \<union> set (ltree_addrs ?A) \<longrightarrow> cells m1 q = cells m q"
      and bf: "brk m1 = brk m" "freed m1 = freed m"
      by auto
    have pb1: "cells m1 pb = cells m pb" using fr d by auto
    have "\<forall>q \<in> set (ltree_addrs lb). cells m1 q = cells m q" using fr d by auto
    from ltree_at_frame [OF this] lb pb1
    have lb1: "ltree_at (cells m1) (ln_left (cells m1 pb)) lb" by simp
    have n1: "pb \<notin> set (ltree_addrs lb)" using d by auto
    have n2: "pb \<notin> set (ltree_addrs ?r')" using d by (auto simp: set_ltree_merge)
    note st = leftist_merge_step [OF lb1 r' n1 n2]
    let ?m2 = "leftist_fix (update_cell m1 pb (\<lambda>n. n\<lparr>ln_right := r\<rparr>)) pb"
    have res: "leftist_merge fuel m a b = Some (?m2, Some pb)"
      using True rec by (simp add: fuel a b ca cb)
    have t: "ltree_merge ?A ?B = (if ltree_npl lb < ltree_npl ?r'
            then LNode pb kb (1 + ltree_npl lb) ?r' lb
            else LNode pb kb (1 + ltree_npl ?r') lb ?r')"
      using True by (simp add: Let_def)
    have "ltree_at (cells ?m2) (Some pb) (ltree_merge ?A ?B)"
      unfolding t using st(1) [unfolded pb1 cb] .
    moreover have "\<forall>q. q \<notin> set (ltree_addrs ?A) \<union> set (ltree_addrs ?B) \<longrightarrow> cells ?m2 q = cells m q"
      using st(2) fr by auto
    ultimately show ?thesis using res st(3,4) bf by simp
  next
    case False
    let ?r' = "ltree_merge ra ?B"
    have d1: "distinct (ltree_addrs ra @ ltree_addrs ?B)" using d by auto
    have sz: "size ra + size ?B < f" using "3.prems"(4) fuel by simp
    from "3.IH"(2) [OF False ra _ d1 sz, of "Some pb"] "3.prems"(2) b
    obtain m1 r where rec: "leftist_merge f m (ln_right (cells m pa)) (Some pb) = Some (m1, r)"
      and r': "ltree_at (cells m1) r ?r'"
      and fr: "\<forall>q. q \<notin> set (ltree_addrs ra) \<union> set (ltree_addrs ?B) \<longrightarrow> cells m1 q = cells m q"
      and bf: "brk m1 = brk m" "freed m1 = freed m"
      by auto
    have pa1: "cells m1 pa = cells m pa" using fr d by auto
    have "\<forall>q \<in> set (ltree_addrs la). cells m1 q = cells m q" using fr d by auto
    from ltree_at_frame [OF this] la pa1
    have la1: "ltree_at (cells m1) (ln_left (cells m1 pa)) la" by simp
    have n1: "pa \<notin> set (ltree_addrs la)" using d by auto
    have n2: "pa \<notin> set (ltree_addrs ?r')" using d by (auto simp: set_ltree_merge)
    note st = leftist_merge_step [OF la1 r' n1 n2]
    let ?m2 = "leftist_fix (update_cell m1 pa (\<lambda>n. n\<lparr>ln_right := r\<rparr>)) pa"
    have res: "leftist_merge fuel m a b = Some (?m2, Some pa)"
      using False rec by (simp add: fuel a b ca cb)
    have t: "ltree_merge ?A ?B = (if ltree_npl la < ltree_npl ?r'
            then LNode pa ka (1 + ltree_npl la) ?r' la
            else LNode pa ka (1 + ltree_npl ?r') la ?r')"
      using False by (simp add: Let_def)
    have "ltree_at (cells ?m2) (Some pa) (ltree_merge ?A ?B)"
      unfolding t using st(1) [unfolded pa1 ca] .
    moreover have "\<forall>q. q \<notin> set (ltree_addrs ?A) \<union> set (ltree_addrs ?B) \<longrightarrow> cells ?m2 q = cells m q"
      using st(2) fr by auto
    ultimately show ?thesis using res st(3,4) bf by simp
  qed
qed


lemma leftist_property_merge:
  "leftist_property a \<Longrightarrow> leftist_property b \<Longrightarrow> leftist_property (ltree_merge a b)"
  by (induction a b rule: ltree_merge.induct) (auto simp: Let_def)

lemma mset_keys_ltree_merge:
  "mset (ltree_keys (ltree_merge a b)) = mset (ltree_keys a) + mset (ltree_keys b)"
  by (induction a b rule: ltree_merge.induct) (auto simp: Let_def)

lemma leftist_clone_correct:
  "ltree_at (cells m) p t \<Longrightarrow> set (ltree_addrs t) \<subseteq> {..<brk m} \<Longrightarrow> size t < fuel \<Longrightarrow>
   \<exists>m' p' t'. leftist_clone fuel m p = Some (m', p')
     \<and> ltree_at (cells m') p' t' \<and> ltree_same t t'
     \<and> distinct (ltree_addrs t') \<and> set (ltree_addrs t') \<subseteq> {brk m..<brk m'}
     \<and> (\<forall>q<brk m. cells m' q = cells m q) \<and> brk m \<le> brk m' \<and> freed m' = freed m"
proof (induction t arbitrary: m p fuel)
  case LLeaf
  then obtain f where "fuel = Suc f" by (cases fuel) auto
  with LLeaf show ?case by (cases p) (auto intro!: exI [of _ LLeaf])
next
  case (LNode h k n l r)
  from LNode.prems(3) obtain f where fuel: "fuel = Suc f" by (cases fuel) auto
  from LNode.prems(1) have p: "p = Some h" and ck: "ln_key (cells m h) = k"
    and cn: "ln_npl (cells m h) = n"
    and la: "ltree_at (cells m) (ln_left (cells m h)) l"
    and ra: "ltree_at (cells m) (ln_right (cells m h)) r"
    by (cases p; simp)+
  from LNode.prems(2) have hb: "h < brk m" and lb: "set (ltree_addrs l) \<subseteq> {..<brk m}"
    and rb: "set (ltree_addrs r) \<subseteq> {..<brk m}" by auto
  define nw where "nw = brk m"
  define m1 where "m1 = fst (leftist_new_node m (ln_key (cells m h)))"
  define m2 where "m2 = update_cell m1 nw (\<lambda>c. c\<lparr>ln_npl := ln_npl (cells m1 h)\<rparr>)"
  have nn: "leftist_new_node m (ln_key (cells m h)) = (m1, nw)"
    by (simp add: m1_def nw_def leftist_new_node_def malloc_def)
  have c2: "cells m2 = (cells m)(nw := \<lparr>ln_key = k, ln_npl = n, ln_left = None, ln_right = None\<rparr>)"
    and b2: "brk m2 = Suc nw" and f2: "freed m2 = freed m"
    using hb by (auto simp: m2_def m1_def nw_def leftist_new_node_def malloc_def update_cell_def ck cn)
  have low2: "\<forall>q<brk m. cells m2 q = cells m q" by (simp add: c2 nw_def)
  have h2: "cells m2 h = cells m h" using hb low2 by simp
  have "\<forall>q \<in> set (ltree_addrs l). cells m2 q = cells m q" using lb low2 by auto
  from ltree_at_frame [OF this] la have la2: "ltree_at (cells m2) (ln_left (cells m2 h)) l"
    by (simp add: h2)
  have lb2: "set (ltree_addrs l) \<subseteq> {..<brk m2}" using lb b2 by (auto simp: nw_def)
  have sl: "size l < f" using LNode.prems(3) fuel by simp
  from LNode.IH(1) [OF la2 lb2 sl]
  obtain m3 cl l' where c3: "leftist_clone f m2 (ln_left (cells m2 h)) = Some (m3, cl)"
    and l3: "ltree_at (cells m3) cl l'" and same_l: "ltree_same l l'"
    and dl: "distinct (ltree_addrs l')" and al: "set (ltree_addrs l') \<subseteq> {brk m2..<brk m3}"
    and fr3: "\<forall>q<brk m2. cells m3 q = cells m2 q" and b3: "brk m2 \<le> brk m3"
    and f3: "freed m3 = freed m2"
    by blast
  define m4 where "m4 = update_cell m3 nw (\<lambda>c. c\<lparr>ln_left := cl\<rparr>)"
  have "cells m3 nw = cells m2 nw" using fr3 b2 by simp
  then have m3n: "cells m3 nw = \<lparr>ln_key = k, ln_npl = n, ln_left = None, ln_right = None\<rparr>"
    by (simp add: c2)
  have c4n: "cells m4 nw = \<lparr>ln_key = k, ln_npl = n, ln_left = cl, ln_right = None\<rparr>"
    by (simp add: m4_def update_cell_def m3n)
  have c4: "\<forall>q. q \<noteq> nw \<longrightarrow> cells m4 q = cells m3 q" by (simp add: m4_def update_cell_def)
  have b4: "brk m4 = brk m3" and f4: "freed m4 = freed m3" by (simp_all add: m4_def update_cell_def)
  have low4: "\<forall>q<brk m. cells m4 q = cells m q"
  proof (intro allI impI)
    fix q assume q: "q < brk m"
    then have "cells m4 q = cells m3 q" using c4 by (simp add: nw_def)
    also have "\<dots> = cells m2 q" using fr3 q b2 by (simp add: nw_def)
    also have "\<dots> = cells m q" using low2 q by simp
    finally show "cells m4 q = cells m q" .
  qed
  have h4: "cells m4 h = cells m h" using low4 hb by simp
  have "\<forall>q \<in> set (ltree_addrs r). cells m4 q = cells m q" using rb low4 by auto
  from ltree_at_frame [OF this] ra have ra4: "ltree_at (cells m4) (ln_right (cells m4 h)) r"
    by (simp add: h4)
  have rb4: "set (ltree_addrs r) \<subseteq> {..<brk m4}" using rb b2 b3 b4 by (auto simp: nw_def)
  have sr: "size r < f" using LNode.prems(3) fuel by simp
  from LNode.IH(2) [OF ra4 rb4 sr]
  obtain m5 cr r' where c5: "leftist_clone f m4 (ln_right (cells m4 h)) = Some (m5, cr)"
    and r5: "ltree_at (cells m5) cr r'" and same_r: "ltree_same r r'"
    and dr: "distinct (ltree_addrs r')" and ar: "set (ltree_addrs r') \<subseteq> {brk m4..<brk m5}"
    and fr5: "\<forall>q<brk m4. cells m5 q = cells m4 q" and b5: "brk m4 \<le> brk m5"
    and f5: "freed m5 = freed m4"
    by blast
  define m6 where "m6 = update_cell m5 nw (\<lambda>c. c\<lparr>ln_right := cr\<rparr>)"
  let ?t' = "LNode nw k n l' r'"
  have res: "leftist_clone fuel m p = Some (m6, Some nw)"
    unfolding fuel p leftist_clone.simps nn
    by (simp add: Let_def m2_def [symmetric] c3 m4_def [symmetric] c5 m6_def [symmetric])
  have nlt: "nw < brk m3" using b2 b3 by simp
  have "cells m5 nw = cells m4 nw" using fr5 b4 nlt by simp
  then have c6n: "cells m6 nw = \<lparr>ln_key = k, ln_npl = n, ln_left = cl, ln_right = cr\<rparr>"
    by (simp add: m6_def update_cell_def c4n)
  have c6: "\<forall>q. q \<noteq> nw \<longrightarrow> cells m6 q = cells m5 q" by (simp add: m6_def update_cell_def)
  have b6: "brk m6 = brk m5" and f6: "freed m6 = freed m5" by (simp_all add: m6_def update_cell_def)
  have nl: "nw \<notin> set (ltree_addrs l')" using al b2 by auto
  have nr: "nw \<notin> set (ltree_addrs r')" using ar b4 b3 b2 by auto
  have "\<forall>q \<in> set (ltree_addrs l'). cells m6 q = cells m3 q"
  proof
    fix q assume q: "q \<in> set (ltree_addrs l')"
    with nl have ne: "q \<noteq> nw" by auto
    from q al b4 have "q < brk m4" by auto
    with ne show "cells m6 q = cells m3 q" using c6 fr5 c4 by simp
  qed
  from ltree_at_frame [OF this] l3 have l6: "ltree_at (cells m6) cl l'" by simp
  have "\<forall>q \<in> set (ltree_addrs r'). cells m6 q = cells m5 q"
    using nr c6 by auto
  from ltree_at_frame [OF this] r5 have r6: "ltree_at (cells m6) cr r'" by simp
  have t6: "ltree_at (cells m6) (Some nw) ?t'"
    using l6 r6 by (simp add: c6n)
  have "set (ltree_addrs l') \<inter> set (ltree_addrs r') = {}"
  proof -
    have "{brk m2..<brk m3} \<inter> {brk m4..<brk m5} = {}" using b4 by auto
    with al ar show ?thesis by blast
  qed
  then have dis: "distinct (ltree_addrs ?t')"
    using dl dr nl nr by simp
  have rng: "set (ltree_addrs ?t') \<subseteq> {brk m..<brk m6}"
    using al ar b2 b3 b4 b5 b6 by (auto simp: nw_def)
  have low6: "\<forall>q<brk m. cells m6 q = cells m q"
  proof (intro allI impI)
    fix q assume q: "q < brk m"
    then have "cells m6 q = cells m5 q" using c6 by (simp add: nw_def)
    also have "\<dots> = cells m4 q" using fr5 q b2 b3 b4 by (simp add: nw_def)
    also have "\<dots> = cells m q" using low4 q by simp
    finally show "cells m6 q = cells m q" .
  qed
  have "brk m \<le> brk m6" using b2 b3 b4 b5 b6 by (simp add: nw_def)
  moreover have "freed m6 = freed m" using f2 f3 f4 f5 f6 by simp
  moreover have "ltree_same (LNode h k n l r) ?t'" using same_l same_r by simp
  ultimately show ?case using res t6 dis rng low6 by blast
qed

subsection \<open>Skew heap: the pointer code against the shape of the trees\<close>

lemma stree_at_frame:
  "\<forall>q \<in> set (stree_addrs t). c' q = c q \<Longrightarrow> stree_at c' p t = stree_at c p t"
proof (induction t arbitrary: p)
  case SLeaf
  show ?case by (cases p) auto
next
  case (SNode q k l r)
  then show ?case by (cases p) auto
qed

lemma stree_at_update:
  "a \<notin> set (stree_addrs t) \<Longrightarrow> stree_at (c(a := v)) p t = stree_at c p t"
  by (rule stree_at_frame) auto

lemma mset_stree_merge:
  "mset (stree_addrs (stree_merge a b)) = mset (stree_addrs a) + mset (stree_addrs b)"
  by (induction a b rule: stree_merge.induct) auto

lemma set_stree_merge:
  "set (stree_addrs (stree_merge a b)) = set (stree_addrs a) \<union> set (stree_addrs b)"
  using mset_stree_merge [of a b] by (metis set_mset_mset set_mset_union)

lemma mset_keys_stree_merge:
  "mset (stree_keys (stree_merge a b)) = mset (stree_keys a) + mset (stree_keys b)"
  by (induction a b rule: stree_merge.induct) auto

lemma skew_merge_step:
  assumes l: "stree_at (cells m1) (sn_left (cells m1 a)) l"
    and r: "stree_at (cells m1) r r'"
    and al: "a \<notin> set (stree_addrs l)" and ar: "a \<notin> set (stree_addrs r')"
  defines "m2 \<equiv> skew_swap (update_cell m1 a (\<lambda>n. n\<lparr>sn_right := r\<rparr>)) a"
  shows "stree_at (cells m2) (Some a) (SNode a (sn_key (cells m1 a)) r' l)"
    and "\<forall>q. q \<noteq> a \<longrightarrow> cells m2 q = cells m1 q"
    and "brk m2 = brk m1" and "freed m2 = freed m1"
proof -
  show "\<forall>q. q \<noteq> a \<longrightarrow> cells m2 q = cells m1 q"
    by (simp add: m2_def skew_swap_def update_cell_def Let_def)
  show "brk m2 = brk m1" "freed m2 = freed m1"
    by (simp_all add: m2_def skew_swap_def update_cell_def Let_def)
  show "stree_at (cells m2) (Some a) (SNode a (sn_key (cells m1 a)) r' l)"
    unfolding m2_def skew_swap_def update_cell_def Let_def
    by (simp add: stree_at_update al ar l r)
qed

lemma skew_merge_refines:
  "stree_at (cells m) a ta \<Longrightarrow> stree_at (cells m) b tb \<Longrightarrow>
   distinct (stree_addrs ta @ stree_addrs tb) \<Longrightarrow> size ta + size tb < fuel \<Longrightarrow>
   \<exists>m' r. skew_merge fuel m a b = Some (m', r)
     \<and> stree_at (cells m') r (stree_merge ta tb)
     \<and> (\<forall>q. q \<notin> set (stree_addrs ta) \<union> set (stree_addrs tb) \<longrightarrow> cells m' q = cells m q)
     \<and> brk m' = brk m \<and> freed m' = freed m"
proof (induction ta tb arbitrary: fuel m a b rule: stree_merge.induct)
  case (1 tb)
  then obtain f where "fuel = Suc f" by (cases fuel) auto
  with 1 show ?case by (cases a) auto
next
  case (2 p k l r)
  then obtain f where "fuel = Suc f" by (cases fuel) auto
  with 2 show ?case by (cases a; cases b) auto
next
  case (3 pa ka la ra pb kb lb rb)
  let ?A = "SNode pa ka la ra" and ?B = "SNode pb kb lb rb"
  from "3.prems"(4) obtain f where fuel: "fuel = Suc f" by (cases fuel) auto
  from "3.prems"(1) have a: "a = Some pa" and ca: "sn_key (cells m pa) = ka"
    and la: "stree_at (cells m) (sn_left (cells m pa)) la"
    and ra: "stree_at (cells m) (sn_right (cells m pa)) ra"
    by (cases a; simp)+
  from "3.prems"(2) have b: "b = Some pb" and cb: "sn_key (cells m pb) = kb"
    and lb: "stree_at (cells m) (sn_left (cells m pb)) lb"
    and rb: "stree_at (cells m) (sn_right (cells m pb)) rb"
    by (cases b; simp)+
  note d = "3.prems"(3)
  show ?case
  proof (cases "kb < ka")
    case True
    let ?r' = "stree_merge rb ?A"
    have d1: "distinct (stree_addrs rb @ stree_addrs ?A)" using d by auto
    have sz: "size rb + size ?A < f" using "3.prems"(4) fuel by simp
    from "3.IH"(1) [OF True rb _ d1 sz, of "Some pa"] "3.prems"(1) a
    obtain m1 r where rec: "skew_merge f m (sn_right (cells m pb)) (Some pa) = Some (m1, r)"
      and r': "stree_at (cells m1) r ?r'"
      and fr: "\<forall>q. q \<notin> set (stree_addrs rb) \<union> set (stree_addrs ?A) \<longrightarrow> cells m1 q = cells m q"
      and bf: "brk m1 = brk m" "freed m1 = freed m"
      by auto
    have pb1: "cells m1 pb = cells m pb" using fr d by auto
    have "\<forall>q \<in> set (stree_addrs lb). cells m1 q = cells m q" using fr d by auto
    from stree_at_frame [OF this] lb pb1
    have lb1: "stree_at (cells m1) (sn_left (cells m1 pb)) lb" by simp
    have n1: "pb \<notin> set (stree_addrs lb)" using d by auto
    have n2: "pb \<notin> set (stree_addrs ?r')" using d by (auto simp: set_stree_merge)
    note st = skew_merge_step [OF lb1 r' n1 n2]
    let ?m2 = "skew_swap (update_cell m1 pb (\<lambda>n. n\<lparr>sn_right := r\<rparr>)) pb"
    have res: "skew_merge fuel m a b = Some (?m2, Some pb)"
      using True rec by (simp add: fuel a b ca cb)
    have t: "stree_merge ?A ?B = SNode pb kb ?r' lb"
      using True by simp
    have "stree_at (cells ?m2) (Some pb) (stree_merge ?A ?B)"
      unfolding t using st(1) [unfolded pb1 cb] .
    moreover have "\<forall>q. q \<notin> set (stree_addrs ?A) \<union> set (stree_addrs ?B) \<longrightarrow> cells ?m2 q = cells m q"
      using st(2) fr by auto
    ultimately show ?thesis using res st(3,4) bf by simp
  next
    case False
    let ?r' = "stree_merge ra ?B"
    have d1: "distinct (stree_addrs ra @ stree_addrs ?B)" using d by auto
    have sz: "size ra + size ?B < f" using "3.prems"(4) fuel by simp
    from "3.IH"(2) [OF False ra _ d1 sz, of "Some pb"] "3.prems"(2) b
    obtain m1 r where rec: "skew_merge f m (sn_right (cells m pa)) (Some pb) = Some (m1, r)"
      and r': "stree_at (cells m1) r ?r'"
      and fr: "\<forall>q. q \<notin> set (stree_addrs ra) \<union> set (stree_addrs ?B) \<longrightarrow> cells m1 q = cells m q"
      and bf: "brk m1 = brk m" "freed m1 = freed m"
      by auto
    have pa1: "cells m1 pa = cells m pa" using fr d by auto
    have "\<forall>q \<in> set (stree_addrs la). cells m1 q = cells m q" using fr d by auto
    from stree_at_frame [OF this] la pa1
    have la1: "stree_at (cells m1) (sn_left (cells m1 pa)) la" by simp
    have n1: "pa \<notin> set (stree_addrs la)" using d by auto
    have n2: "pa \<notin> set (stree_addrs ?r')" using d by (auto simp: set_stree_merge)
    note st = skew_merge_step [OF la1 r' n1 n2]
    let ?m2 = "skew_swap (update_cell m1 pa (\<lambda>n. n\<lparr>sn_right := r\<rparr>)) pa"
    have res: "skew_merge fuel m a b = Some (?m2, Some pa)"
      using False rec by (simp add: fuel a b ca cb)
    have t: "stree_merge ?A ?B = SNode pa ka ?r' la"
      using False by simp
    have "stree_at (cells ?m2) (Some pa) (stree_merge ?A ?B)"
      unfolding t using st(1) [unfolded pa1 ca] .
    moreover have "\<forall>q. q \<notin> set (stree_addrs ?A) \<union> set (stree_addrs ?B) \<longrightarrow> cells ?m2 q = cells m q"
      using st(2) fr by auto
    ultimately show ?thesis using res st(3,4) bf by simp
  qed
qed

lemma skew_clone_correct:
  "stree_at (cells m) p t \<Longrightarrow> set (stree_addrs t) \<subseteq> {..<brk m} \<Longrightarrow> size t < fuel \<Longrightarrow>
   \<exists>m' p' t'. skew_clone fuel m p = Some (m', p')
     \<and> stree_at (cells m') p' t' \<and> stree_same t t'
     \<and> distinct (stree_addrs t') \<and> set (stree_addrs t') \<subseteq> {brk m..<brk m'}
     \<and> (\<forall>q<brk m. cells m' q = cells m q) \<and> brk m \<le> brk m' \<and> freed m' = freed m"
proof (induction t arbitrary: m p fuel)
  case SLeaf
  then obtain f where "fuel = Suc f" by (cases fuel) auto
  with SLeaf show ?case by (cases p) (auto intro!: exI [of _ SLeaf])
next
  case (SNode h k l r)
  from SNode.prems(3) obtain f where fuel: "fuel = Suc f" by (cases fuel) auto
  from SNode.prems(1) have p: "p = Some h" and ck: "sn_key (cells m h) = k"
    and la: "stree_at (cells m) (sn_left (cells m h)) l"
    and ra: "stree_at (cells m) (sn_right (cells m h)) r"
    by (cases p; simp)+
  from SNode.prems(2) have hb: "h < brk m" and lb: "set (stree_addrs l) \<subseteq> {..<brk m}"
    and rb: "set (stree_addrs r) \<subseteq> {..<brk m}" by auto
  define nw where "nw = brk m"
  define m2 where "m2 = fst (skew_new_node m (sn_key (cells m h)))"
  have nn: "skew_new_node m (sn_key (cells m h)) = (m2, nw)"
    by (simp add: m2_def nw_def skew_new_node_def malloc_def)
  have c2: "cells m2 = (cells m)(nw := \<lparr>sn_key = k, sn_left = None, sn_right = None\<rparr>)"
    and b2: "brk m2 = Suc nw" and f2: "freed m2 = freed m"
    by (auto simp: m2_def nw_def skew_new_node_def malloc_def ck)
  have low2: "\<forall>q<brk m. cells m2 q = cells m q" by (simp add: c2 nw_def)
  have h2: "cells m2 h = cells m h" using hb low2 by simp
  have "\<forall>q \<in> set (stree_addrs l). cells m2 q = cells m q" using lb low2 by auto
  from stree_at_frame [OF this] la have la2: "stree_at (cells m2) (sn_left (cells m2 h)) l"
    by (simp add: h2)
  have lb2: "set (stree_addrs l) \<subseteq> {..<brk m2}" using lb b2 by (auto simp: nw_def)
  have sl: "size l < f" using SNode.prems(3) fuel by simp
  from SNode.IH(1) [OF la2 lb2 sl]
  obtain m3 cl l' where c3: "skew_clone f m2 (sn_left (cells m2 h)) = Some (m3, cl)"
    and l3: "stree_at (cells m3) cl l'" and same_l: "stree_same l l'"
    and dl: "distinct (stree_addrs l')" and al: "set (stree_addrs l') \<subseteq> {brk m2..<brk m3}"
    and fr3: "\<forall>q<brk m2. cells m3 q = cells m2 q" and b3: "brk m2 \<le> brk m3"
    and f3: "freed m3 = freed m2"
    by blast
  define m4 where "m4 = update_cell m3 nw (\<lambda>c. c\<lparr>sn_left := cl\<rparr>)"
  have "cells m3 nw = cells m2 nw" using fr3 b2 by simp
  then have m3n: "cells m3 nw = \<lparr>sn_key = k, sn_left = None, sn_right = None\<rparr>"
    by (simp add: c2)
  have c4n: "cells m4 nw = \<lparr>sn_key = k, sn_left = cl, sn_right = None\<rparr>"
    by (simp add: m4_def update_cell_def m3n)
  have c4: "\<forall>q. q \<noteq> nw \<longrightarrow> cells m4 q = cells m3 q" by (simp add: m4_def update_cell_def)
  have b4: "brk m4 = brk m3" and f4: "freed m4 = freed m3" by (simp_all add: m4_def update_cell_def)
  have low4: "\<forall>q<brk m. cells m4 q = cells m q"
  proof (intro allI impI)
    fix q assume q: "q < brk m"
    then have "cells m4 q = cells m3 q" using c4 by (simp add: nw_def)
    also have "\<dots> = cells m2 q" using fr3 q b2 by (simp add: nw_def)
    also have "\<dots> = cells m q" using low2 q by simp
    finally show "cells m4 q = cells m q" .
  qed
  have h4: "cells m4 h = cells m h" using low4 hb by simp
  have "\<forall>q \<in> set (stree_addrs r). cells m4 q = cells m q" using rb low4 by auto
  from stree_at_frame [OF this] ra have ra4: "stree_at (cells m4) (sn_right (cells m4 h)) r"
    by (simp add: h4)
  have rb4: "set (stree_addrs r) \<subseteq> {..<brk m4}" using rb b2 b3 b4 by (auto simp: nw_def)
  have sr: "size r < f" using SNode.prems(3) fuel by simp
  from SNode.IH(2) [OF ra4 rb4 sr]
  obtain m5 cr r' where c5: "skew_clone f m4 (sn_right (cells m4 h)) = Some (m5, cr)"
    and r5: "stree_at (cells m5) cr r'" and same_r: "stree_same r r'"
    and dr: "distinct (stree_addrs r')" and ar: "set (stree_addrs r') \<subseteq> {brk m4..<brk m5}"
    and fr5: "\<forall>q<brk m4. cells m5 q = cells m4 q" and b5: "brk m4 \<le> brk m5"
    and f5: "freed m5 = freed m4"
    by blast
  define m6 where "m6 = update_cell m5 nw (\<lambda>c. c\<lparr>sn_right := cr\<rparr>)"
  let ?t' = "SNode nw k l' r'"
  have res: "skew_clone fuel m p = Some (m6, Some nw)"
    unfolding fuel p skew_clone.simps nn
    by (simp add: Let_def c3 m4_def [symmetric] c5 m6_def [symmetric])
  have nlt: "nw < brk m3" using b2 b3 by simp
  have "cells m5 nw = cells m4 nw" using fr5 b4 nlt by simp
  then have c6n: "cells m6 nw = \<lparr>sn_key = k, sn_left = cl, sn_right = cr\<rparr>"
    by (simp add: m6_def update_cell_def c4n)
  have c6: "\<forall>q. q \<noteq> nw \<longrightarrow> cells m6 q = cells m5 q" by (simp add: m6_def update_cell_def)
  have b6: "brk m6 = brk m5" and f6: "freed m6 = freed m5" by (simp_all add: m6_def update_cell_def)
  have nl: "nw \<notin> set (stree_addrs l')" using al b2 by auto
  have nr: "nw \<notin> set (stree_addrs r')" using ar b4 b3 b2 by auto
  have "\<forall>q \<in> set (stree_addrs l'). cells m6 q = cells m3 q"
  proof
    fix q assume q: "q \<in> set (stree_addrs l')"
    with nl have ne: "q \<noteq> nw" by auto
    from q al b4 have "q < brk m4" by auto
    with ne show "cells m6 q = cells m3 q" using c6 fr5 c4 by simp
  qed
  from stree_at_frame [OF this] l3 have l6: "stree_at (cells m6) cl l'" by simp
  have "\<forall>q \<in> set (stree_addrs r'). cells m6 q = cells m5 q"
    using nr c6 by auto
  from stree_at_frame [OF this] r5 have r6: "stree_at (cells m6) cr r'" by simp
  have t6: "stree_at (cells m6) (Some nw) ?t'"
    using l6 r6 by (simp add: c6n)
  have "set (stree_addrs l') \<inter> set (stree_addrs r') = {}"
  proof -
    have "{brk m2..<brk m3} \<inter> {brk m4..<brk m5} = {}" using b4 by auto
    with al ar show ?thesis by blast
  qed
  then have dis: "distinct (stree_addrs ?t')"
    using dl dr nl nr by simp
  have rng: "set (stree_addrs ?t') \<subseteq> {brk m..<brk m6}"
    using al ar b2 b3 b4 b5 b6 by (auto simp: nw_def)
  have low6: "\<forall>q<brk m. cells m6 q = cells m q"
  proof (intro allI impI)
    fix q assume q: "q < brk m"
    then have "cells m6 q = cells m5 q" using c6 by (simp add: nw_def)
    also have "\<dots> = cells m4 q" using fr5 q b2 b3 b4 by (simp add: nw_def)
    also have "\<dots> = cells m q" using low4 q by simp
    finally show "cells m6 q = cells m q" .
  qed
  have "brk m \<le> brk m6" using b2 b3 b4 b5 b6 by (simp add: nw_def)
  moreover have "freed m6 = freed m" using f2 f3 f4 f5 f6 by simp
  moreover have "stree_same (SNode h k l r) ?t'" using same_l same_r by simp
  ultimately show ?case using res t6 dis rng low6 by blast
qed

subsection \<open>Leftist and skew heap: invariants and the persistent merge\<close>

lemma ltree_same_size: "ltree_same t t' \<Longrightarrow> size t = size t'"
  by (induction t t' rule: ltree_same.induct) auto

lemma stree_same_size: "stree_same t t' \<Longrightarrow> size t = size t'"
  by (induction t t' rule: stree_same.induct) auto

lemma ltree_same_property: "ltree_same t t' \<Longrightarrow> leftist_property t \<Longrightarrow> leftist_property t'"
proof (induction t t' rule: ltree_same.induct)
  case (2 p k n l r p' k' n' l' r')
  moreover have "ltree_npl a = ltree_npl b" if "ltree_same a b" for a b
    using that by (cases a; cases b) auto
  ultimately show ?case by auto
qed auto

lemma ltree_same_keys: "ltree_same t t' \<Longrightarrow> ltree_keys t = ltree_keys t'"
  by (induction t t' rule: ltree_same.induct) auto

lemma stree_same_keys: "stree_same t t' \<Longrightarrow> stree_keys t = stree_keys t'"
  by (induction t t' rule: stree_same.induct) auto

lemma leftist_merge_persistent_correct:
  assumes a: "ltree_at (cells m) a ta" and b: "ltree_at (cells m) b tb"
    and alloc: "set (ltree_addrs ta) \<union> set (ltree_addrs tb) \<subseteq> {..<brk m}"
    and fuel: "size ta + size tb < fuel"
  shows "\<exists>m' r t. leftist_merge_persistent fuel m a b = Some (m', r)
     \<and> (\<forall>q<brk m. cells m' q = cells m q)
     \<and> ltree_at (cells m') a ta \<and> ltree_at (cells m') b tb
     \<and> ltree_at (cells m') r t \<and> set (ltree_addrs t) \<subseteq> {brk m..<brk m'}
     \<and> mset (ltree_keys t) = mset (ltree_keys ta) + mset (ltree_keys tb)"
proof -
  from alloc have aa: "set (ltree_addrs ta) \<subseteq> {..<brk m}" and ab: "set (ltree_addrs tb) \<subseteq> {..<brk m}"
    by auto
  from fuel have fa: "size ta < fuel" and fb: "size tb < fuel" by auto
  from leftist_clone_correct [OF a aa fa]
  obtain m1 ca ta' where c1: "leftist_clone fuel m a = Some (m1, ca)"
    and t1: "ltree_at (cells m1) ca ta'" and s1: "ltree_same ta ta'"
    and d1: "distinct (ltree_addrs ta')" and r1: "set (ltree_addrs ta') \<subseteq> {brk m..<brk m1}"
    and low1: "\<forall>q<brk m. cells m1 q = cells m q" and b1: "brk m \<le> brk m1"
    by blast
  have "\<forall>q \<in> set (ltree_addrs tb). cells m1 q = cells m q" using ab low1 by auto
  from ltree_at_frame [OF this] b have b1t: "ltree_at (cells m1) b tb" by simp
  have ab1: "set (ltree_addrs tb) \<subseteq> {..<brk m1}" using ab b1 by auto
  from leftist_clone_correct [OF b1t ab1 fb]
  obtain m2 cb tb' where c2: "leftist_clone fuel m1 b = Some (m2, cb)"
    and t2: "ltree_at (cells m2) cb tb'" and s2: "ltree_same tb tb'"
    and d2: "distinct (ltree_addrs tb')" and r2: "set (ltree_addrs tb') \<subseteq> {brk m1..<brk m2}"
    and low2: "\<forall>q<brk m1. cells m2 q = cells m1 q" and b2: "brk m1 \<le> brk m2"
    by blast
  have "\<forall>q \<in> set (ltree_addrs ta'). cells m2 q = cells m1 q" using r1 low2 by auto
  from ltree_at_frame [OF this] t1 have t1': "ltree_at (cells m2) ca ta'" by simp
  have "set (ltree_addrs ta') \<inter> set (ltree_addrs tb') = {}"
  proof -
    have "{brk m..<brk m1} \<inter> {brk m1..<brk m2} = {}" by auto
    with r1 r2 show ?thesis by blast
  qed
  with d1 d2 have dis: "distinct (ltree_addrs ta' @ ltree_addrs tb')" by simp
  have sz: "size ta' + size tb' < fuel"
    using fuel ltree_same_size [OF s1] ltree_same_size [OF s2] by simp
  from leftist_merge_refines [OF t1' t2 dis sz]
  obtain m3 r where mg: "leftist_merge fuel m2 ca cb = Some (m3, r)"
    and t3: "ltree_at (cells m3) r (ltree_merge ta' tb')"
    and fr3: "\<forall>q. q \<notin> set (ltree_addrs ta') \<union> set (ltree_addrs tb') \<longrightarrow> cells m3 q = cells m2 q"
    and b3: "brk m3 = brk m2"
    by blast
  have res: "leftist_merge_persistent fuel m a b = Some (m3, r)"
    by (simp add: leftist_merge_persistent_def c1 c2 mg)
  have low3: "\<forall>q<brk m. cells m3 q = cells m q"
  proof (intro allI impI)
    fix q assume q: "q < brk m"
    with r1 r2 b1 have "q \<notin> set (ltree_addrs ta') \<union> set (ltree_addrs tb')" by auto
    with fr3 have "cells m3 q = cells m2 q" by simp
    also have "\<dots> = cells m1 q" using low2 q b1 by simp
    also have "\<dots> = cells m q" using low1 q by simp
    finally show "cells m3 q = cells m q" .
  qed
  have "\<forall>q \<in> set (ltree_addrs ta). cells m3 q = cells m q" using aa low3 by auto
  from ltree_at_frame [OF this] a have a3: "ltree_at (cells m3) a ta" by simp
  have "\<forall>q \<in> set (ltree_addrs tb). cells m3 q = cells m q" using ab low3 by auto
  from ltree_at_frame [OF this] b have b3t: "ltree_at (cells m3) b tb" by simp
  have rng: "set (ltree_addrs (ltree_merge ta' tb')) \<subseteq> {brk m..<brk m3}"
    using r1 r2 b1 b2 b3 by (auto simp: set_ltree_merge)
  have "mset (ltree_keys (ltree_merge ta' tb')) = mset (ltree_keys ta) + mset (ltree_keys tb)"
    by (simp add: mset_keys_ltree_merge ltree_same_keys [OF s1] ltree_same_keys [OF s2])
  with res low3 a3 b3t t3 rng show ?thesis by blast
qed

lemma skew_merge_persistent_correct:
  assumes a: "stree_at (cells m) a ta" and b: "stree_at (cells m) b tb"
    and alloc: "set (stree_addrs ta) \<union> set (stree_addrs tb) \<subseteq> {..<brk m}"
    and fuel: "size ta + size tb < fuel"
  shows "\<exists>m' r t. skew_merge_persistent fuel m a b = Some (m', r)
     \<and> (\<forall>q<brk m. cells m' q = cells m q)
     \<and> stree_at (cells m') a ta \<and> stree_at (cells m') b tb
     \<and> stree_at (cells m') r t \<and> set (stree_addrs t) \<subseteq> {brk m..<brk m'}
     \<and> mset (stree_keys t) = mset (stree_keys ta) + mset (stree_keys tb)"
proof -
  from alloc have aa: "set (stree_addrs ta) \<subseteq> {..<brk m}" and ab: "set (stree_addrs tb) \<subseteq> {..<brk m}"
    by auto
  from fuel have fa: "size ta < fuel" and fb: "size tb < fuel" by auto
  from skew_clone_correct [OF a aa fa]
  obtain m1 ca ta' where c1: "skew_clone fuel m a = Some (m1, ca)"
    and t1: "stree_at (cells m1) ca ta'" and s1: "stree_same ta ta'"
    and d1: "distinct (stree_addrs ta')" and r1: "set (stree_addrs ta') \<subseteq> {brk m..<brk m1}"
    and low1: "\<forall>q<brk m. cells m1 q = cells m q" and b1: "brk m \<le> brk m1"
    by blast
  have "\<forall>q \<in> set (stree_addrs tb). cells m1 q = cells m q" using ab low1 by auto
  from stree_at_frame [OF this] b have b1t: "stree_at (cells m1) b tb" by simp
  have ab1: "set (stree_addrs tb) \<subseteq> {..<brk m1}" using ab b1 by auto
  from skew_clone_correct [OF b1t ab1 fb]
  obtain m2 cb tb' where c2: "skew_clone fuel m1 b = Some (m2, cb)"
    and t2: "stree_at (cells m2) cb tb'" and s2: "stree_same tb tb'"
    and d2: "distinct (stree_addrs tb')" and r2: "set (stree_addrs tb') \<subseteq> {brk m1..<brk m2}"
    and low2: "\<forall>q<brk m1. cells m2 q = cells m1 q" and b2: "brk m1 \<le> brk m2"
    by blast
  have "\<forall>q \<in> set (stree_addrs ta'). cells m2 q = cells m1 q" using r1 low2 by auto
  from stree_at_frame [OF this] t1 have t1': "stree_at (cells m2) ca ta'" by simp
  have "set (stree_addrs ta') \<inter> set (stree_addrs tb') = {}"
  proof -
    have "{brk m..<brk m1} \<inter> {brk m1..<brk m2} = {}" by auto
    with r1 r2 show ?thesis by blast
  qed
  with d1 d2 have dis: "distinct (stree_addrs ta' @ stree_addrs tb')" by simp
  have sz: "size ta' + size tb' < fuel"
    using fuel stree_same_size [OF s1] stree_same_size [OF s2] by simp
  from skew_merge_refines [OF t1' t2 dis sz]
  obtain m3 r where mg: "skew_merge fuel m2 ca cb = Some (m3, r)"
    and t3: "stree_at (cells m3) r (stree_merge ta' tb')"
    and fr3: "\<forall>q. q \<notin> set (stree_addrs ta') \<union> set (stree_addrs tb') \<longrightarrow> cells m3 q = cells m2 q"
    and b3: "brk m3 = brk m2"
    by blast
  have res: "skew_merge_persistent fuel m a b = Some (m3, r)"
    by (simp add: skew_merge_persistent_def c1 c2 mg)
  have low3: "\<forall>q<brk m. cells m3 q = cells m q"
  proof (intro allI impI)
    fix q assume q: "q < brk m"
    with r1 r2 b1 have "q \<notin> set (stree_addrs ta') \<union> set (stree_addrs tb')" by auto
    with fr3 have "cells m3 q = cells m2 q" by simp
    also have "\<dots> = cells m1 q" using low2 q b1 by simp
    also have "\<dots> = cells m q" using low1 q by simp
    finally show "cells m3 q = cells m q" .
  qed
  have "\<forall>q \<in> set (stree_addrs ta). cells m3 q = cells m q" using aa low3 by auto
  from stree_at_frame [OF this] a have a3: "stree_at (cells m3) a ta" by simp
  have "\<forall>q \<in> set (stree_addrs tb). cells m3 q = cells m q" using ab low3 by auto
  from stree_at_frame [OF this] b have b3t: "stree_at (cells m3) b tb" by simp
  have rng: "set (stree_addrs (stree_merge ta' tb')) \<subseteq> {brk m..<brk m3}"
    using r1 r2 b1 b2 b3 by (auto simp: set_stree_merge)
  have "mset (stree_keys (stree_merge ta' tb')) = mset (stree_keys ta) + mset (stree_keys tb)"
    by (simp add: mset_keys_stree_merge stree_same_keys [OF s1] stree_same_keys [OF s2])
  with res low3 a3 b3t t3 rng show ?thesis by blast
qed

text \<open>
  C6. For two valid leftist heaps \<open>a\<close> and \<open>b\<close> (trees in memory that share no node and
  satisfy the npl invariant), \<^verbatim>\<open>leftist_merge\<close> returns, and in the tree it returns every
  node has \<open>npl(left) \<ge> npl(right)\<close> and stores \<open>npl = 1 + min(npl(left), npl(right))\<close>,
  with \<open>-1\<close> for an absent child. The same holds for the result of \<^verbatim>\<open>leftist_insert\<close>
  on \<open>a\<close> and, when \<open>a\<close> is not empty, of \<^verbatim>\<open>leftist_delete_min\<close> on \<open>a\<close>.
\<close>

theorem leftist_npl_invariant_preserved:
  assumes a: "ltree_at (cells m) a ta" and b: "ltree_at (cells m) b tb"
    and sep: "distinct (ltree_addrs ta @ ltree_addrs tb)"
    and alloc: "set (ltree_addrs ta) \<subseteq> {..<brk m}"
    and inv: "leftist_property ta" "leftist_property tb"
    and fuel: "size ta + size tb + 1 < fuel"
  shows "(\<exists>m' r t. leftist_merge fuel m a b = Some (m', r)
            \<and> ltree_at (cells m') r t \<and> leftist_property t)
       \<and> (\<exists>m' r t. leftist_insert fuel m a k = Some (m', r)
            \<and> ltree_at (cells m') r t \<and> leftist_property t)
       \<and> (a \<noteq> None \<longrightarrow>
            (\<exists>m' r t. leftist_delete_min fuel m a = Some (Inr (m', r))
               \<and> ltree_at (cells m') r t \<and> leftist_property t))"
proof (intro conjI impI)
  from fuel have "size ta + size tb < fuel" by simp
  from leftist_merge_refines [OF a b sep this] leftist_property_merge [OF inv]
  show "\<exists>m' r t. leftist_merge fuel m a b = Some (m', r)
            \<and> ltree_at (cells m') r t \<and> leftist_property t"
    by blast
next
  define m1 where "m1 = fst (leftist_new_node m k)"
  define n where "n = brk m"
  let ?N = "LNode n k 0 LLeaf LLeaf"
  have nn: "leftist_new_node m k = (m1, n)"
    by (simp add: m1_def n_def leftist_new_node_def malloc_def)
  have c1: "cells m1 = (cells m)(n := \<lparr>ln_key = k, ln_npl = 0, ln_left = None, ln_right = None\<rparr>)"
    by (simp add: m1_def n_def leftist_new_node_def malloc_def)
  have nta: "n \<notin> set (ltree_addrs ta)" using alloc by (auto simp: n_def)
  then have a1: "ltree_at (cells m1) a ta" using a by (simp add: c1 ltree_at_update)
  have n1: "ltree_at (cells m1) (Some n) ?N" by (simp add: c1)
  have "distinct (ltree_addrs ta)" using sep by simp
  with nta have d: "distinct (ltree_addrs ta @ ltree_addrs ?N)" by simp
  have sz: "size ta + size ?N < fuel" using fuel by simp
  have pn: "leftist_property ?N" by simp
  from leftist_merge_refines [OF a1 n1 d sz] leftist_property_merge [OF inv(1) pn]
  show "\<exists>m' r t. leftist_insert fuel m a k = Some (m', r)
            \<and> ltree_at (cells m') r t \<and> leftist_property t"
    by (simp add: leftist_insert_def nn) blast
next
  assume "a \<noteq> None"
  with a obtain p kk nn l r where ta: "ta = LNode p kk nn l r" and ap: "a = Some p"
    by (cases a; cases ta) auto
  from a have l: "ltree_at (cells m) (ln_left (cells m p)) l"
    and r: "ltree_at (cells m) (ln_right (cells m p)) r"
    by (simp_all add: ta ap)
  from sep have d: "distinct (ltree_addrs l @ ltree_addrs r)" by (auto simp: ta)
  from inv(1) have pl: "leftist_property l" and pr: "leftist_property r" by (simp_all add: ta)
  from fuel have sz: "size l + size r < fuel" by (simp add: ta)
  from leftist_merge_refines [OF l r d sz]
  obtain m1 res where mg: "leftist_merge fuel m (ln_left (cells m p)) (ln_right (cells m p)) = Some (m1, res)"
    and t1: "ltree_at (cells m1) res (ltree_merge l r)"
    by blast
  have "leftist_delete_min fuel m a = Some (Inr (free m1 p, res))"
    by (simp add: leftist_delete_min_def ap mg)
  moreover have "ltree_at (cells (free m1 p)) res (ltree_merge l r)"
    using t1 by (simp add: free_def)
  ultimately show "\<exists>m' r t. leftist_delete_min fuel m a = Some (Inr (m', r))
               \<and> ltree_at (cells m') r t \<and> leftist_property t"
    using leftist_property_merge [OF pl pr] by blast
qed

text \<open>C6 at two concrete heaps: \<open>{4, 7}\<close> at address 0 and \<open>{5}\<close> at address 2.\<close>

theorem leftist_npl_invariant_preserved_witness:
  "ltree_at (cells two_leftist_heaps) (Some 0) (LNode 0 4 0 (LNode 1 7 0 LLeaf LLeaf) LLeaf)
   \<and> ltree_at (cells two_leftist_heaps) (Some 2) (LNode 2 5 0 LLeaf LLeaf)
   \<and> leftist_property (LNode 0 4 0 (LNode 1 7 0 LLeaf LLeaf) LLeaf)
   \<and> leftist_property (LNode 2 5 0 LLeaf LLeaf)
   \<and> (\<exists>m' r t. leftist_merge 5 two_leftist_heaps (Some 0) (Some 2) = Some (m', r)
          \<and> ltree_at (cells m') r t \<and> leftist_property t)
   \<and> (\<exists>m' r t. leftist_insert 5 two_leftist_heaps (Some 0) 9 = Some (m', r)
          \<and> ltree_at (cells m') r t \<and> leftist_property t)
   \<and> (\<exists>m' r t. leftist_delete_min 5 two_leftist_heaps (Some 0) = Some (Inr (m', r))
          \<and> ltree_at (cells m') r t \<and> leftist_property t)"
proof -
  let ?ta = "LNode 0 4 0 (LNode 1 7 0 LLeaf LLeaf) LLeaf"
  let ?tb = "LNode 2 5 0 LLeaf LLeaf"
  have a: "ltree_at (cells two_leftist_heaps) (Some 0) ?ta"
    and b: "ltree_at (cells two_leftist_heaps) (Some 2) ?tb"
    by (simp_all add: two_leftist_heaps_def)
  have sep: "distinct (ltree_addrs ?ta @ ltree_addrs ?tb)" by simp
  have alloc: "set (ltree_addrs ?ta) \<subseteq> {..<brk two_leftist_heaps}"
    by (simp add: two_leftist_heaps_def)
  have inv: "leftist_property ?ta" "leftist_property ?tb" by simp_all
  have fuel: "size ?ta + size ?tb + 1 < (5::nat)" by simp
  from leftist_npl_invariant_preserved [OF a b sep alloc inv fuel, of 9] a b inv
  show ?thesis by simp
qed


text \<open>
  C9. \<^verbatim>\<open>heap_merge\<close> on two allocated heaps either stops at its assertion (the orderings
  differ) or returns a new heap object and leaves the two inputs (buffer, size, capacity,
  ordering flag) as they were. \<^verbatim>\<open>leftist_merge_persistent\<close> and
  \<^verbatim>\<open>skew_merge_persistent\<close> on two allocated trees return, leave every node allocated
  before the call as it was, so that both input trees are unchanged (same nodes, keys, shape
  and npl fields), and return a tree made of newly allocated nodes only.
\<close>

theorem nondestructive_merge_keeps_inputs:
  assumes "heaps s p = Some ha" and "heaps s q = Some hb"
    and "p < next_heap s" and "q < next_heap s"
    and "ltree_at (cells lm) la lta" and "ltree_at (cells lm) lb ltb"
    and "set (ltree_addrs lta) \<union> set (ltree_addrs ltb) \<subseteq> {..<brk lm}"
    and "size lta + size ltb < lfuel"
    and "stree_at (cells sm) sa sta" and "stree_at (cells sm) sb stb"
    and "set (stree_addrs sta) \<union> set (stree_addrs stb) \<subseteq> {..<brk sm}"
    and "size sta + size stb < sfuel"
  shows "(case heap_merge s (Some p) (Some q) of
            Inl e \<Rightarrow> e = AssertionFailed \<and> is_min ha \<noteq> is_min hb
          | Inr (s', r) \<Rightarrow> heaps s' p = Some ha \<and> heaps s' q = Some hb
                \<and> (\<forall>x<next_heap s. heaps s' x = heaps s x) \<and> r = Some (next_heap s))
       \<and> (\<exists>m' r t. leftist_merge_persistent lfuel lm la lb = Some (m', r)
             \<and> (\<forall>x<brk lm. cells m' x = cells lm x)
             \<and> ltree_at (cells m') la lta \<and> ltree_at (cells m') lb ltb
             \<and> ltree_at (cells m') r t
             \<and> set (ltree_addrs t) \<inter> (set (ltree_addrs lta) \<union> set (ltree_addrs ltb)) = {})
       \<and> (\<exists>m' r t. skew_merge_persistent sfuel sm sa sb = Some (m', r)
             \<and> (\<forall>x<brk sm. cells m' x = cells sm x)
             \<and> stree_at (cells m') sa sta \<and> stree_at (cells m') sb stb
             \<and> stree_at (cells m') r t
             \<and> set (stree_addrs t) \<inter> (set (stree_addrs sta) \<union> set (stree_addrs stb)) = {})"
proof (intro conjI)
  show "case heap_merge s (Some p) (Some q) of
            Inl e \<Rightarrow> e = AssertionFailed \<and> is_min ha \<noteq> is_min hb
          | Inr (s', r) \<Rightarrow> heaps s' p = Some ha \<and> heaps s' q = Some hb
                \<and> (\<forall>x<next_heap s. heaps s' x = heaps s x) \<and> r = Some (next_heap s)"
    using assms(1-4) by (simp add: heap_merge_def heap_alloc_def Let_def)
next
  from leftist_merge_persistent_correct [OF assms(5-8)]
  obtain m' r t where res: "leftist_merge_persistent lfuel lm la lb = Some (m', r)"
    "\<forall>x<brk lm. cells m' x = cells lm x" "ltree_at (cells m') la lta" "ltree_at (cells m') lb ltb"
    "ltree_at (cells m') r t" and rng: "set (ltree_addrs t) \<subseteq> {brk lm..<brk m'}"
    by blast
  from rng assms(7) have "set (ltree_addrs t) \<inter> (set (ltree_addrs lta) \<union> set (ltree_addrs ltb)) = {}"
    by fastforce
  with res show "\<exists>m' r t. leftist_merge_persistent lfuel lm la lb = Some (m', r)
             \<and> (\<forall>x<brk lm. cells m' x = cells lm x)
             \<and> ltree_at (cells m') la lta \<and> ltree_at (cells m') lb ltb
             \<and> ltree_at (cells m') r t
             \<and> set (ltree_addrs t) \<inter> (set (ltree_addrs lta) \<union> set (ltree_addrs ltb)) = {}"
    by blast
next
  from skew_merge_persistent_correct [OF assms(9-12)]
  obtain m' r t where res: "skew_merge_persistent sfuel sm sa sb = Some (m', r)"
    "\<forall>x<brk sm. cells m' x = cells sm x" "stree_at (cells m') sa sta" "stree_at (cells m') sb stb"
    "stree_at (cells m') r t" and rng: "set (stree_addrs t) \<subseteq> {brk sm..<brk m'}"
    by blast
  from rng assms(11) have "set (stree_addrs t) \<inter> (set (stree_addrs sta) \<union> set (stree_addrs stb)) = {}"
    by fastforce
  with res show "\<exists>m' r t. skew_merge_persistent sfuel sm sa sb = Some (m', r)
             \<and> (\<forall>x<brk sm. cells m' x = cells sm x)
             \<and> stree_at (cells m') sa sta \<and> stree_at (cells m') sb stb
             \<and> stree_at (cells m') r t
             \<and> set (stree_addrs t) \<inter> (set (stree_addrs sta) \<union> set (stree_addrs stb)) = {}"
    by blast
qed

text \<open>C9 at concrete heaps: array heaps \<open>{3, 5, 8}\<close> and \<open>{1, 9}\<close>, trees \<open>{4, 7}\<close> and \<open>{5}\<close>.\<close>

theorem nondestructive_merge_keeps_inputs_witness:
  "(\<exists>s' r. heap_merge two_array_heaps (Some 0) (Some 1) = Inr (s', Some r)
        \<and> heaps s' 0 = heaps two_array_heaps 0 \<and> heaps s' 1 = heaps two_array_heaps 1 \<and> r = 2)
   \<and> (\<exists>m' r t. leftist_merge_persistent 5 two_leftist_heaps (Some 0) (Some 2) = Some (m', r)
        \<and> ltree_at (cells m') (Some 0) (LNode 0 4 0 (LNode 1 7 0 LLeaf LLeaf) LLeaf)
        \<and> ltree_at (cells m') (Some 2) (LNode 2 5 0 LLeaf LLeaf)
        \<and> ltree_at (cells m') r t \<and> set (ltree_addrs t) \<inter> {0, 1, 2} = {})
   \<and> (\<exists>m' r t. skew_merge_persistent 5 two_skew_heaps (Some 0) (Some 2) = Some (m', r)
        \<and> stree_at (cells m') (Some 0) (SNode 0 4 (SNode 1 7 SLeaf SLeaf) SLeaf)
        \<and> stree_at (cells m') (Some 2) (SNode 2 5 SLeaf SLeaf)
        \<and> stree_at (cells m') r t \<and> set (stree_addrs t) \<inter> {0, 1, 2} = {})"
proof -
  let ?ha = "\<lparr>data = [3, 5, 8], size_h = 3, capacity = 3, is_min = True\<rparr>"
  let ?hb = "\<lparr>data = [1, 9, 0, 0], size_h = 2, capacity = 4, is_min = True\<rparr>"
  let ?lta = "LNode 0 4 0 (LNode 1 7 0 LLeaf LLeaf) LLeaf" and ?ltb = "LNode 2 5 0 LLeaf LLeaf"
  let ?sta = "SNode 0 4 (SNode 1 7 SLeaf SLeaf) SLeaf" and ?stb = "SNode 2 5 SLeaf SLeaf"
  have h: "heaps two_array_heaps 0 = Some ?ha" "heaps two_array_heaps 1 = Some ?hb"
    "0 < next_heap two_array_heaps" "1 < next_heap two_array_heaps"
    by (simp_all add: two_array_heaps_def)
  have l: "ltree_at (cells two_leftist_heaps) (Some 0) ?lta"
    "ltree_at (cells two_leftist_heaps) (Some 2) ?ltb"
    "set (ltree_addrs ?lta) \<union> set (ltree_addrs ?ltb) \<subseteq> {..<brk two_leftist_heaps}"
    "size ?lta + size ?ltb < (5::nat)"
    by (simp_all add: two_leftist_heaps_def)
  have s: "stree_at (cells two_skew_heaps) (Some 0) ?sta"
    "stree_at (cells two_skew_heaps) (Some 2) ?stb"
    "set (stree_addrs ?sta) \<union> set (stree_addrs ?stb) \<subseteq> {..<brk two_skew_heaps}"
    "size ?sta + size ?stb < (5::nat)"
    by (simp_all add: two_skew_heaps_def)
  have ok: "\<exists>s' r. heap_merge two_array_heaps (Some 0) (Some 1) = Inr (s', r)"
    by (simp add: heap_merge_def two_array_heaps_def heap_alloc_def Let_def)
  from nondestructive_merge_keeps_inputs [OF h l s] ok h
  show ?thesis
    by (auto simp: two_array_heaps_def insert_commute)
qed

subsection \<open>Binomial heap\<close>

lemma binomial_merge_loop_cycle:
  "bn_sibling (cells m c) = Some c \<Longrightarrow> binomial_merge_loop fuel m head prev c (Some c) = None"
  by (induction fuel arbitrary: prev) auto

lemma binomial_delete_min_diverges:
  assumes hs: "bn_sibling (cells m h) = Some c" and hc: "bn_child (cells m h) = Some c"
    and cs: "bn_sibling (cells m c) = None"
    and k: "\<not> bn_key (cells m c) < bn_key (cells m h)"
  shows "binomial_delete_min fuel m (Some h) = None"
proof -
  consider "fuel = 0" | "fuel = Suc 0" | f where "fuel = Suc (Suc f)"
    by (cases fuel; cases "fuel - 1") auto
  then show ?thesis
  proof cases
    case 1
    then show ?thesis by (simp add: binomial_delete_min_def)
  next
    case 2
    then show ?thesis using hs k by (simp add: binomial_delete_min_def)
  next
    case 3
    have scan: "delete_min_scan fuel m h h None = Some (h, None)"
      using hs cs k by (simp add: 3)
    define m2 where "m2 = update_cell (update_cell m c (\<lambda>n. n\<lparr>bn_sibling := None\<rparr>)) c (\<lambda>n. n\<lparr>bn_parent := None\<rparr>)"
    have rc: "reverse_children fuel m (Some c) None = Some (m2, Some c)"
      using cs by (simp add: 3 m2_def Let_def)
    have s2: "bn_sibling (cells m2 c) = None" by (simp add: m2_def update_cell_def)
    define m3 where "m3 = update_cell m2 c (\<lambda>n. n\<lparr>bn_sibling := Some c\<rparr>)"
    have mr: "merge_roots fuel m2 (Some c) (Some c) = Some (m3, Some c)"
      using s2 by (simp add: 3 merge_roots_def store_pos_def m3_def)
    have s3: "bn_sibling (cells m3 c) = Some c" by (simp add: m3_def update_cell_def)
    have "binomial_merge fuel m2 (Some c) (Some c) = None"
      by (simp add: binomial_merge_def mr s3 binomial_merge_loop_cycle)
    then show ?thesis
      by (simp add: binomial_delete_min_def scan hs hc rc)
  qed
qed

lemma binomial_drain_diverges:
  assumes hs: "bn_sibling (cells m h) = Some c" and hc: "bn_child (cells m h) = Some c"
    and cs: "bn_sibling (cells m c) = None"
    and k: "\<not> bn_key (cells m c) < bn_key (cells m h)"
  shows "binomial_drain fuel m (Some h) = None"
  using binomial_delete_min_diverges [OF assms]
  by (cases fuel) (auto simp: binomial_find_min_def split: option.splits sum.splits)

lemma two_inserts:
  "\<exists>m. binomial_inserts 3 empty_binomial_memory None [1, 2] = Some (m, Some 0)
     \<and> bn_sibling (cells m 0) = Some 1 \<and> bn_child (cells m 0) = Some 1
     \<and> bn_sibling (cells m 1) = None \<and> bn_key (cells m 0) = 1 \<and> bn_key (cells m 1) = 2
     \<and> bn_degree (cells m 0) = 1 \<and> bn_degree (cells m 1) = 0"
  by (simp add: numeral_3_eq_3 binomial_insert_def binomial_new_node_def malloc_def
      empty_binomial_memory_def binomial_merge_def merge_roots_def store_pos_def
      binomial_link_def update_cell_def Let_def)

text \<open>
  C5 on the code: from the empty heap, \<^verbatim>\<open>binomial_insert\<close> of key 1 and then of key 2.
  \<^verbatim>\<open>binomial_link\<close> makes node 2 the child of node 1 and leaves it in the root list
  (\<^verbatim>\<open>curr->sibling\<close> still points to \<^verbatim>\<open>next\<close>), so the root list holds the degrees
  1, 0: they are not ascending.
\<close>

theorem binomial_insert_root_degrees_not_ascending:
  "\<exists>m h. binomial_inserts 3 empty_binomial_memory None [1, 2] = Some (m, h)
     \<and> root_degrees 3 m h = Some [1, 0]
     \<and> \<not> sorted_wrt (<) (the (root_degrees 3 m h))"
proof -
  from two_inserts obtain m where m: "binomial_inserts 3 empty_binomial_memory None [1, 2] = Some (m, Some 0)"
    "bn_sibling (cells m 0) = Some 1" "bn_sibling (cells m 1) = None"
    "bn_degree (cells m 0) = 1" "bn_degree (cells m 1) = 0"
    by blast
  then have "root_degrees 3 m (Some 0) = Some [1, 0]"
    by (simp add: numeral_3_eq_3)
  with m(1) show ?thesis by simp
qed

text \<open>
  C1 on the code: after \<^verbatim>\<open>binomial_insert\<close> of key 1 and then of key 2 the delete-min
  drain does not produce the keys in order: its first \<^verbatim>\<open>binomial_delete_min\<close> merges
  node 2 with itself, and the consolidation loop of \<^verbatim>\<open>binomial_merge\<close> never ends.
\<close>

theorem binomial_drain_after_inserts_never_returns:
  "\<exists>m h. binomial_inserts 3 empty_binomial_memory None [1, 2] = Some (m, h)
     \<and> (\<forall>fuel. binomial_drain fuel m h = None)"
proof -
  from two_inserts obtain m where m: "binomial_inserts 3 empty_binomial_memory None [1, 2] = Some (m, Some 0)"
    "bn_sibling (cells m 0) = Some 1" "bn_child (cells m 0) = Some 1"
    "bn_sibling (cells m 1) = None" "bn_key (cells m 0) = 1" "bn_key (cells m 1) = 2"
    by blast
  have k: "\<not> bn_key (cells m 1) < bn_key (cells m 0)"
    unfolding m(5) m(6) by simp
  have "binomial_drain fuel m (Some 0) = None" for fuel
    by (rule binomial_drain_diverges [OF m(2) m(3) m(4) k])
  with m(1) show ?thesis by blast
qed

text \<open>
  C2 on the code: the heap holding key 1 merged with the heap holding key 2. The merged heap
  does not hold two elements as a drain observes them: the drain never returns.
\<close>

theorem binomial_merge_drain_never_returns:
  "\<exists>m1 h1 m2 h2 m3 h.
       binomial_insert 3 empty_binomial_memory None 1 = Some (m1, h1)
     \<and> binomial_insert 3 m1 None 2 = Some (m2, h2)
     \<and> binomial_merge 3 m2 h1 h2 = Some (m3, h)
     \<and> (\<forall>fuel. binomial_drain fuel m3 h = None)"
proof -
  have "\<exists>m1 m2 m3.
       binomial_insert 3 empty_binomial_memory None 1 = Some (m1, Some 0)
     \<and> binomial_insert 3 m1 None 2 = Some (m2, Some 1)
     \<and> binomial_merge 3 m2 (Some 0) (Some 1) = Some (m3, Some 0)
     \<and> bn_sibling (cells m3 0) = Some 1 \<and> bn_child (cells m3 0) = Some 1
     \<and> bn_sibling (cells m3 1) = None \<and> bn_key (cells m3 0) = 1 \<and> bn_key (cells m3 1) = 2"
    by (simp add: numeral_3_eq_3 binomial_insert_def binomial_new_node_def malloc_def
        empty_binomial_memory_def binomial_merge_def merge_roots_def store_pos_def
        binomial_link_def update_cell_def Let_def)
  then obtain m1 m2 m3 where m:
    "binomial_insert 3 empty_binomial_memory None 1 = Some (m1, Some 0)"
    "binomial_insert 3 m1 None 2 = Some (m2, Some 1)"
    "binomial_merge 3 m2 (Some 0) (Some 1) = Some (m3, Some 0)"
    "bn_sibling (cells m3 0) = Some 1" "bn_child (cells m3 0) = Some 1"
    "bn_sibling (cells m3 1) = None" "bn_key (cells m3 0) = 1" "bn_key (cells m3 1) = 2"
    by blast
  have k: "\<not> bn_key (cells m3 1) < bn_key (cells m3 0)"
    unfolding m(7) m(8) by simp
  have "binomial_drain fuel m3 (Some 0) = None" for fuel
    by (rule binomial_drain_diverges [OF m(4) m(5) m(6) k])
  with m(1,2,3) show ?thesis by blast
qed

text \<open>
  C4 on the code: on an empty structure \<^verbatim>\<open>heap_peek\<close>, \<^verbatim>\<open>heap_pop\<close>,
  \<^verbatim>\<open>leftist_find_min\<close>, \<^verbatim>\<open>leftist_delete_min\<close>, \<^verbatim>\<open>skew_find_min\<close>,
  \<^verbatim>\<open>skew_delete_min\<close> and \<^verbatim>\<open>binomial_find_min\<close> stop at their assertion.
  \<^verbatim>\<open>binomial_delete_min\<close> has no check: on a heap with an empty root list it reads
  through the \<^verbatim>\<open>NULL\<close> pointer.
\<close>

theorem binomial_delete_min_empty_unchecked:
  "heap_peek (heap_create c mn) = Inl AssertionFailed
   \<and> heap_pop (heap_create c mn) = Inl AssertionFailed
   \<and> leftist_find_min lm None = Inl AssertionFailed
   \<and> leftist_delete_min fuel lm None = Some (Inl AssertionFailed)
   \<and> skew_find_min sm None = Inl AssertionFailed
   \<and> skew_delete_min fuel sm None = Some (Inl AssertionFailed)
   \<and> binomial_find_min fuel bm None = Some (Inl AssertionFailed)
   \<and> binomial_delete_min fuel bm None = Some (Inl NullDereference)"
  by (simp add: heap_peek_def heap_pop_def heap_create_def Let_def leftist_find_min_def
      leftist_delete_min_def skew_find_min_def skew_delete_min_def binomial_find_min_def
      binomial_delete_min_def)

end
